theory Spec2Isabelle
  imports Complex_Main "HOL-Library.Sublist"
begin

section \<open>The scalar autograd engine of the notebook\<close>

text \<open>
  The notebook defines one class, \<^verbatim>\<open>Value\<close>, and three network classes built on it.
  Objects live in a heap: a list of nodes in creation order, and a reference to an object
  is its index in that list. Allocation appends, so a node created from operands always
  has a larger index than they have.

  A number is a Python \<^verbatim>\<open>float\<close>, read as a real number; an \<^verbatim>\<open>int\<close> (the literal
  \<^verbatim>\<open>-1\<close> of \<^verbatim>\<open>__neg__\<close> and \<^verbatim>\<open>__truediv__\<close>, an exponent) is read as the float of the
  same value, which is what Python makes of it as soon as the other operand is a float.
  (A \<^verbatim>\<open>Value\<close> made from an \<^verbatim>\<open>int\<close> and raised to an \<^verbatim>\<open>int\<close> power stays an unbounded
  \<^verbatim>\<open>int\<close> in Python; here it is a float like the rest.) The rounding of doubles, and the
  silent infinity of a sum or product that is too large, are not followed. What raises
  is: \<^verbatim>\<open>math.exp\<close> and the power of two floats raise \<^verbatim>\<open>OverflowError\<close> when the result
  is beyond the doubles. The fields \<^verbatim>\<open>_op\<close> and
  \<^verbatim>\<open>label\<close> are strings that no method reads, and are left out.
\<close>

text \<open>The exceptions the source raises.\<close>

datatype error = AssertionError | ZeroDivisionError | TypeError | OverflowError

text \<open>
  The closure stored in \<^verbatim>\<open>_backward\<close>. Each constructor lists what the Python closure
  captures besides \<^verbatim>\<open>out\<close>, which is always the node the closure is stored in:
  the references \<^verbatim>\<open>self\<close> and \<^verbatim>\<open>other\<close>, the exponent of \<^verbatim>\<open>__pow__\<close>, the number
  \<^verbatim>\<open>t\<close> of \<^verbatim>\<open>tanh\<close>. \<open>NoOp\<close> is \<^verbatim>\<open>lambda: None\<close>.
\<close>

datatype closure =
    NoOp
  | AddBw nat nat
  | MulBw nat nat
  | PowBw nat real
  | TanhBw nat real
  | ExpBw nat

record Value =
  data :: real
  grad :: real
  closure :: closure
  prev :: "nat list"

type_synonym heap = "Value list"

text \<open>An argument of an operator: a plain number or a reference to a \<^verbatim>\<open>Value\<close>.\<close>

datatype pyarg = Num real | Ref nat

text \<open>
  \<^verbatim>\<open>Value.__init__\<close> followed by the assignment of \<^verbatim>\<open>out._backward\<close>. The field
  \<^verbatim>\<open>_prev\<close> is \<^verbatim>\<open>set(_children)\<close>: the children without duplicates. Python iterates a
  set of objects in an order that depends on their addresses; the list kept here is one
  such order, and the theorems on \<open>build_topo\<close> below hold for every order.
\<close>

definition Value_init :: "heap \<Rightarrow> real \<Rightarrow> nat list \<Rightarrow> closure \<Rightarrow> nat \<times> heap" where
  "Value_init h d children bw =
     (length h, h @ [\<lparr>data = d, grad = 0, closure = bw, prev = remdups children\<rparr>])"

text \<open>\<^verbatim>\<open>other if isinstance(other, Value) else Value(other)\<close>\<close>

definition promote :: "heap \<Rightarrow> pyarg \<Rightarrow> nat \<times> heap" where
  "promote h a = (case a of Ref r \<Rightarrow> (r, h) | Num x \<Rightarrow> Value_init h x [] NoOp)"

definition Value_add :: "heap \<Rightarrow> nat \<Rightarrow> pyarg \<Rightarrow> nat \<times> heap" where
  "Value_add h self other =
     (case promote h other of (other', h1) \<Rightarrow>
        Value_init h1 (data (h1 ! self) + data (h1 ! other')) [self, other'] (AddBw self other'))"

definition Value_mul :: "heap \<Rightarrow> nat \<Rightarrow> pyarg \<Rightarrow> nat \<times> heap" where
  "Value_mul h self other =
     (case promote h other of (other', h1) \<Rightarrow>
        Value_init h1 (data (h1 ! self) * data (h1 ! other')) [self, other'] (MulBw self other'))"

text \<open>
  The least magnitude that rounds to infinity as a double: the largest double is
  \<open>2 ^ 1024 - 2 ^ 971\<close>, and half a unit in its last place is \<open>2 ^ 970\<close>.
\<close>

definition float_inf :: real where
  "float_inf = 2 ^ 1024 - 2 ^ 970"

text \<open>\<^verbatim>\<open>math.exp\<close>: \<^verbatim>\<open>OverflowError\<close> (math range error) when the result is out of range.\<close>

definition math_exp :: "real \<Rightarrow> error + real" where
  "math_exp x = (if float_inf \<le> exp x then Inl OverflowError else Inr (exp x))"

text \<open>What Python's power of two floats returns: a float or a complex number.\<close>

datatype pynum = PyFloat real | PyComplex complex

text \<open>
  Python's \<^verbatim>\<open>x ** k\<close> on two floats. A zero base with a negative exponent raises
  \<^verbatim>\<open>ZeroDivisionError\<close>. A negative base with an exponent that is not a whole number
  gives the complex number of modulus \<open>\<bar>x\<bar> ** k\<close> and argument \<open>pi * k\<close>. A result whose
  magnitude is out of range raises \<^verbatim>\<open>OverflowError\<close>.
\<close>

definition pypow :: "real \<Rightarrow> real \<Rightarrow> error + pynum" where
  "pypow x k =
     (if x = 0 then
        (if k < 0 then Inl ZeroDivisionError
         else if k = 0 then Inr (PyFloat 1) else Inr (PyFloat 0))
      else if 0 < x then
        (if float_inf \<le> x powr k then Inl OverflowError else Inr (PyFloat (x powr k)))
      else if of_int \<lfloor>k\<rfloor> = k then
        (if float_inf \<le> \<bar>x powi \<lfloor>k\<rfloor>\<bar> then Inl OverflowError
         else Inr (PyFloat (x powi \<lfloor>k\<rfloor>)))
      else
        (if float_inf \<le> \<bar>x\<bar> powr k then Inl OverflowError
         else Inr (PyComplex (of_real (\<bar>x\<bar> powr k) * cis (pi * k)))))"

text \<open>
  What an operator that goes through a power returns: a node of the heap, or a node
  that holds a complex number. The heaps of this development hold reals, so a complex
  node is handed back as its \<^verbatim>\<open>data\<close>, its closure and its \<^verbatim>\<open>_prev\<close>, and is not stored.
\<close>

datatype node_out = RealNode nat heap | ComplexNode complex closure "nat list"

text \<open>
  \<^verbatim>\<open>__pow__\<close>: the assertion \<^verbatim>\<open>isinstance(other, (int, float))\<close> comes first, then the
  forward value, then the allocation.
\<close>

definition Value_pow :: "heap \<Rightarrow> nat \<Rightarrow> pyarg \<Rightarrow> error + node_out" where
  "Value_pow h self other =
     (case other of
        Ref r \<Rightarrow> Inl AssertionError
      | Num k \<Rightarrow>
          (case pypow (data (h ! self)) k of
             Inl e \<Rightarrow> Inl e
           | Inr (PyFloat y) \<Rightarrow>
               (case Value_init h y [self] (PowBw self k) of (r, h1) \<Rightarrow> Inr (RealNode r h1))
           | Inr (PyComplex z) \<Rightarrow> Inr (ComplexNode z (PowBw self k) (remdups [self]))))"

definition Value_rmul :: "heap \<Rightarrow> nat \<Rightarrow> pyarg \<Rightarrow> nat \<times> heap" where
  "Value_rmul h self other = Value_mul h self other"

text \<open>
  \<^verbatim>\<open>self * other**-1\<close>: the power binds tighter than the product. For a plain number it
  is Python's own power; for a \<^verbatim>\<open>Value\<close> it is \<^verbatim>\<open>__pow__\<close>. The exponent \<open>-1\<close> is whole,
  so the power is never complex (\<open>Value_truediv_real\<close> below); the two complex branches
  give the product node Python would make, over an operand that would sit at the next
  free index.
\<close>

definition Value_truediv :: "heap \<Rightarrow> nat \<Rightarrow> pyarg \<Rightarrow> error + node_out" where
  "Value_truediv h self other =
     (case other of
        Num x \<Rightarrow>
          (case pypow x (- 1) of
             Inl e \<Rightarrow> Inl e
           | Inr (PyFloat y) \<Rightarrow>
               (case Value_mul h self (Num y) of (r, h1) \<Rightarrow> Inr (RealNode r h1))
           | Inr (PyComplex z) \<Rightarrow>
               Inr (ComplexNode (of_real (data (h ! self)) * z) (MulBw self (length h))
                     (remdups [self, length h])))
      | Ref r \<Rightarrow>
          (case Value_pow h r (Num (- 1)) of
             Inl e \<Rightarrow> Inl e
           | Inr (RealNode p h1) \<Rightarrow>
               (case Value_mul h1 self (Ref p) of (q, h2) \<Rightarrow> Inr (RealNode q h2))
           | Inr (ComplexNode z c ps) \<Rightarrow>
               Inr (ComplexNode (of_real (data (h ! self)) * z) (MulBw self (length h))
                     (remdups [self, length h]))))"

definition Value_neg :: "heap \<Rightarrow> nat \<Rightarrow> nat \<times> heap" where
  "Value_neg h self = Value_mul h self (Num (- 1))"

text \<open>\<^verbatim>\<open>self + (-other)\<close>: the negation of a number is a number, that of a \<^verbatim>\<open>Value\<close>
  is \<^verbatim>\<open>__neg__\<close>.\<close>

definition Value_sub :: "heap \<Rightarrow> nat \<Rightarrow> pyarg \<Rightarrow> nat \<times> heap" where
  "Value_sub h self other =
     (case other of
        Num x \<Rightarrow> Value_add h self (Num (- x))
      | Ref r \<Rightarrow> (case Value_neg h r of (n, h1) \<Rightarrow> Value_add h1 self (Ref n)))"

definition Value_radd :: "heap \<Rightarrow> nat \<Rightarrow> pyarg \<Rightarrow> nat \<times> heap" where
  "Value_radd h self other = Value_add h self other"

text \<open>
  \<^verbatim>\<open>tanh\<close>: \<^verbatim>\<open>t = (math.exp(2*x) - 1)/(math.exp(2*x) + 1)\<close>, the exponential of the
  numerator first, then that of the denominator; either raises when \<open>exp (2 * x)\<close> is
  out of range.
\<close>

definition Value_tanh :: "heap \<Rightarrow> nat \<Rightarrow> error + nat \<times> heap" where
  "Value_tanh h self =
     (let x = data (h ! self)
      in case math_exp (2 * x) of
           Inl e \<Rightarrow> Inl e
         | Inr e1 \<Rightarrow>
             (case math_exp (2 * x) of
                Inl e \<Rightarrow> Inl e
              | Inr e2 \<Rightarrow>
                  (let t = (e1 - 1) / (e2 + 1)
                   in Inr (Value_init h t [self] (TanhBw self t)))))"

definition Value_exp :: "heap \<Rightarrow> nat \<Rightarrow> error + nat \<times> heap" where
  "Value_exp h self =
     (let x = data (h ! self)
      in case math_exp x of
           Inl e \<Rightarrow> Inl e
         | Inr y \<Rightarrow> Inr (Value_init h y [self] (ExpBw self)))"

text \<open>
  An expression \<^verbatim>\<open>x op a\<close> with a plain number on the left and a \<^verbatim>\<open>Value\<close> on the
  right: the number's own method does not know \<^verbatim>\<open>Value\<close>, so Python calls the
  reflected method of the right operand's class when the class defines one, and raises
  \<^verbatim>\<open>TypeError\<close> when it does not. The class defines \<^verbatim>\<open>__radd__\<close> and \<^verbatim>\<open>__rmul__\<close> and
  no other reflected method.
\<close>

datatype binop = Add | Mul | Sub | Div

fun reflected :: "binop \<Rightarrow> heap \<Rightarrow> real \<Rightarrow> nat \<Rightarrow> error + nat \<times> heap" where
  "reflected Add h x a = Inr (Value_radd h a (Num x))"
| "reflected Mul h x a = Inr (Value_rmul h a (Num x))"
| "reflected Sub h x a = Inl TypeError"
| "reflected Div h x a = Inl TypeError"

subsection \<open>The backward pass\<close>

text \<open>
  One call of the closure stored in node \<open>out\<close>. The two statements of the closures of
  \<^verbatim>\<open>__add__\<close> and \<^verbatim>\<open>__mul__\<close> run one after the other, the second reading the heap the
  first has written. The closure of \<^verbatim>\<open>__pow__\<close> evaluates a power and can raise. Where
  that power is complex (a negative base with an exponent that is not whole), Python
  raises nothing and goes on with a complex number in the \<^verbatim>\<open>grad\<close> field; the heaps
  here hold reals and cannot follow it, so the pass is left with \<open>ComplexGradient\<close>,
  which is not an exception. On a node that still holds what \<^verbatim>\<open>__pow__\<close> computed this
  does not happen (\<open>run_backward_real\<close> below).
\<close>

datatype stop = Raised error | ComplexGradient

definition add_grad :: "heap \<Rightarrow> nat \<Rightarrow> real \<Rightarrow> heap" where
  "add_grad h n d = h[n := (h ! n)\<lparr>grad := grad (h ! n) + d\<rparr>]"

definition run_backward :: "heap \<Rightarrow> nat \<Rightarrow> stop + heap" where
  "run_backward h out =
     (case closure (h ! out) of
        NoOp \<Rightarrow> Inr h
      | AddBw self other \<Rightarrow>
          (let h1 = add_grad h self (1 * grad (h ! out));
               h2 = add_grad h1 other (1 * grad (h1 ! out))
           in Inr h2)
      | MulBw self other \<Rightarrow>
          (let h1 = add_grad h self (data (h ! other) * grad (h ! out));
               h2 = add_grad h1 other (data (h1 ! self) * grad (h1 ! out))
           in Inr h2)
      | PowBw self k \<Rightarrow>
          (case pypow (data (h ! self)) (k - 1) of
             Inl e \<Rightarrow> Inl (Raised e)
           | Inr (PyFloat y) \<Rightarrow> Inr (add_grad h self (k * y * grad (h ! out)))
           | Inr (PyComplex z) \<Rightarrow> Inl ComplexGradient)
      | TanhBw self t \<Rightarrow> Inr (add_grad h self ((1 - t\<^sup>2) * grad (h ! out)))
      | ExpBw self \<Rightarrow> Inr (add_grad h self (data (h ! out) * grad (h ! out))))"

text \<open>
  \<^verbatim>\<open>build_topo\<close> with the lists \<^verbatim>\<open>topo\<close> and \<^verbatim>\<open>visited\<close> passed as state. The first
  argument bounds the depth of the recursion; \<open>None\<close> means the bound was reached.
  \<open>build_children\<close> is the loop \<^verbatim>\<open>for child in v._prev\<close>.
\<close>

fun build_topo :: "nat \<Rightarrow> heap \<Rightarrow> nat \<Rightarrow> nat list \<times> nat set \<Rightarrow> (nat list \<times> nat set) option"
  and build_children ::
    "nat \<Rightarrow> heap \<Rightarrow> nat list \<Rightarrow> nat list \<times> nat set \<Rightarrow> (nat list \<times> nat set) option" where
  "build_topo 0 h v st = None"
| "build_topo (Suc n) h v (topo, visited) =
     (if v \<in> visited then Some (topo, visited)
      else case build_children n h (prev (h ! v)) (topo, insert v visited) of
             None \<Rightarrow> None
           | Some (topo', visited') \<Rightarrow> Some (topo' @ [v], visited'))"
| "build_children n h [] st = Some st"
| "build_children n h (c # cs) st =
     (case build_topo n h c st of
        None \<Rightarrow> None
      | Some st' \<Rightarrow> build_children n h cs st')"

text \<open>The loop \<^verbatim>\<open>for node in reversed(topo): node._backward()\<close>, given the reversed list.\<close>

fun replay :: "heap \<Rightarrow> nat list \<Rightarrow> stop + heap" where
  "replay h [] = Inr h"
| "replay h (node # nodes) =
     (case run_backward h node of
        Inl e \<Rightarrow> Inl e
      | Inr h' \<Rightarrow> replay h' nodes)"

text \<open>
  \<^verbatim>\<open>Value.backward\<close>. The depth bound handed to \<open>build_topo\<close> is one more than the number
  of nodes in the heap, which the recursion does not exceed on a heap the operators have
  built (\<open>build_topo_result\<close> below); the result is \<open>None\<close> only if it did. The limit the
  Python interpreter itself puts on the depth of recursion is not part of the model.
\<close>

definition Value_backward :: "heap \<Rightarrow> nat \<Rightarrow> (stop + heap) option" where
  "Value_backward h self =
     (case build_topo (Suc (length h)) h self ([], {}) of
        None \<Rightarrow> None
      | Some (topo, visited) \<Rightarrow>
          (let h1 = h[self := (h ! self)\<lparr>grad := 1\<rparr>]
           in Some (replay h1 (rev topo))))"

subsection \<open>Neuron, Layer and MLP\<close>

text \<open>
  \<^verbatim>\<open>random.uniform(-1,1)\<close> is read from a sequence of draws \<open>u\<close>; the position of the
  next draw is passed along with the heap.
\<close>

record Neuron =
  w :: "nat list"
  b :: nat

record Layer =
  neurons :: "Neuron list"

record MLP =
  layers :: "Layer list"

text \<open>What a layer receives and returns: one \<^verbatim>\<open>Value\<close>, or a Python list.\<close>

datatype pyval = Single nat | Seq "pyarg list"

text \<open>\<^verbatim>\<open>[Value(random.uniform(-1,1)) for _ in range(nin)]\<close>\<close>

fun new_weights :: "heap \<Rightarrow> (nat \<Rightarrow> real) \<Rightarrow> nat \<Rightarrow> nat \<Rightarrow> nat list \<times> heap \<times> nat" where
  "new_weights h u i 0 = ([], h, i)"
| "new_weights h u i (Suc nin) =
     (case Value_init h (u i) [] NoOp of (r, h1) \<Rightarrow>
        (case new_weights h1 u (Suc i) nin of (rs, h2, j) \<Rightarrow> (r # rs, h2, j)))"

definition Neuron_init :: "heap \<Rightarrow> (nat \<Rightarrow> real) \<Rightarrow> nat \<Rightarrow> nat \<Rightarrow> Neuron \<times> heap \<times> nat" where
  "Neuron_init h u i nin =
     (case new_weights h u i nin of (ws, h1, j) \<Rightarrow>
        (case Value_init h1 (u j) [] NoOp of (r, h2) \<Rightarrow> (\<lparr>w = ws, b = r\<rparr>, h2, Suc j)))"

text \<open>
  \<^verbatim>\<open>sum((wi*xi for wi, xi in zip(self.w,x)), self.b)\<close>: the generator is consumed one
  product at a time, each added to the running total, which starts as the bias.
\<close>

fun neuron_sum :: "heap \<Rightarrow> nat \<Rightarrow> (nat \<times> pyarg) list \<Rightarrow> nat \<times> heap" where
  "neuron_sum h acc [] = (acc, h)"
| "neuron_sum h acc ((wi, xi) # rest) =
     (case Value_mul h wi xi of (p, h1) \<Rightarrow>
        (case Value_add h1 acc (Ref p) of (acc', h2) \<Rightarrow> neuron_sum h2 acc' rest))"

text \<open>\<^verbatim>\<open>Neuron.__call__\<close>; \<^verbatim>\<open>zip\<close> raises \<^verbatim>\<open>TypeError\<close> on a \<^verbatim>\<open>Value\<close>, which is not
  iterable.\<close>

definition Neuron_call :: "heap \<Rightarrow> Neuron \<Rightarrow> pyval \<Rightarrow> error + nat \<times> heap" where
  "Neuron_call h n x =
     (case x of
        Single v \<Rightarrow> Inl TypeError
      | Seq xs \<Rightarrow>
          (case neuron_sum h (b n) (zip (w n) xs) of (act, h1) \<Rightarrow> Value_tanh h1 act))"

definition Neuron_parameters :: "Neuron \<Rightarrow> nat list" where
  "Neuron_parameters n = w n @ [b n]"

text \<open>\<^verbatim>\<open>[Neuron(nin) for _ in range(nout)]\<close>\<close>

fun new_neurons :: "heap \<Rightarrow> (nat \<Rightarrow> real) \<Rightarrow> nat \<Rightarrow> nat \<Rightarrow> nat \<Rightarrow> Neuron list \<times> heap \<times> nat" where
  "new_neurons h u i nin 0 = ([], h, i)"
| "new_neurons h u i nin (Suc nout) =
     (case Neuron_init h u i nin of (n, h1, j) \<Rightarrow>
        (case new_neurons h1 u j nin nout of (ns, h2, k) \<Rightarrow> (n # ns, h2, k)))"

definition Layer_init :: "heap \<Rightarrow> (nat \<Rightarrow> real) \<Rightarrow> nat \<Rightarrow> nat \<Rightarrow> nat \<Rightarrow> Layer \<times> heap \<times> nat" where
  "Layer_init h u i nin nout =
     (case new_neurons h u i nin nout of (ns, h1, j) \<Rightarrow> (\<lparr>neurons = ns\<rparr>, h1, j))"

text \<open>\<^verbatim>\<open>[n(x) for n in self.neurons]\<close>\<close>

fun layer_outs :: "heap \<Rightarrow> Neuron list \<Rightarrow> pyval \<Rightarrow> error + nat list \<times> heap" where
  "layer_outs h [] x = Inr ([], h)"
| "layer_outs h (n # ns) x =
     (case Neuron_call h n x of
        Inl e \<Rightarrow> Inl e
      | Inr (r, h1) \<Rightarrow>
          (case layer_outs h1 ns x of
             Inl e \<Rightarrow> Inl e
           | Inr (rs, h2) \<Rightarrow> Inr (r # rs, h2)))"

definition Layer_call :: "heap \<Rightarrow> Layer \<Rightarrow> pyval \<Rightarrow> error + pyval \<times> heap" where
  "Layer_call h l x =
     (case layer_outs h (neurons l) x of
        Inl e \<Rightarrow> Inl e
      | Inr (outs, h1) \<Rightarrow>
          Inr (if length outs = 1 then Single (outs ! 0) else Seq (map Ref outs), h1))"

definition Layer_parameters :: "Layer \<Rightarrow> nat list" where
  "Layer_parameters l = concat (map Neuron_parameters (neurons l))"

text \<open>\<^verbatim>\<open>[Layer(sz[i], sz[i+1]) for i in range(len(nouts))]\<close>, given the list of indices.\<close>

fun new_layers :: "heap \<Rightarrow> (nat \<Rightarrow> real) \<Rightarrow> nat \<Rightarrow> nat list \<Rightarrow> nat list \<Rightarrow> Layer list \<times> heap \<times> nat" where
  "new_layers h u i sz [] = ([], h, i)"
| "new_layers h u i sz (k # ks) =
     (case Layer_init h u i (sz ! k) (sz ! Suc k) of (l, h1, j) \<Rightarrow>
        (case new_layers h1 u j sz ks of (ls, h2, j') \<Rightarrow> (l # ls, h2, j')))"

definition MLP_init :: "heap \<Rightarrow> (nat \<Rightarrow> real) \<Rightarrow> nat \<Rightarrow> nat \<Rightarrow> nat list \<Rightarrow> MLP \<times> heap \<times> nat" where
  "MLP_init h u i nin nouts =
     (let sz = [nin] @ nouts
      in case new_layers h u i sz [0..<length nouts] of (ls, h1, j) \<Rightarrow> (\<lparr>layers = ls\<rparr>, h1, j))"

text \<open>\<^verbatim>\<open>for layer in self.layers: x = layer(x)\<close>\<close>

fun mlp_loop :: "heap \<Rightarrow> Layer list \<Rightarrow> pyval \<Rightarrow> error + pyval \<times> heap" where
  "mlp_loop h [] x = Inr (x, h)"
| "mlp_loop h (l # ls) x =
     (case Layer_call h l x of
        Inl e \<Rightarrow> Inl e
      | Inr (x', h1) \<Rightarrow> mlp_loop h1 ls x')"

definition MLP_call :: "heap \<Rightarrow> MLP \<Rightarrow> pyval \<Rightarrow> error + pyval \<times> heap" where
  "MLP_call h m x = mlp_loop h (layers m) x"

definition MLP_parameters :: "MLP \<Rightarrow> nat list" where
  "MLP_parameters m = concat (map Layer_parameters (layers m))"

subsection \<open>Notions used in the statements\<close>

text \<open>The number an argument stands for.\<close>

definition arg_value :: "heap \<Rightarrow> pyarg \<Rightarrow> real" where
  "arg_value h a = (case a of Num x \<Rightarrow> x | Ref r \<Rightarrow> data (h ! r))"

text \<open>The \<open>data\<close> of the node an operator returns, if it returns one.\<close>

definition result_value :: "error + nat \<times> heap \<Rightarrow> real option" where
  "result_value res = (case res of Inl e \<Rightarrow> None | Inr (r, h) \<Rightarrow> Some (data (h ! r)))"

text \<open>An argument is valid in a heap if it is a number or refers to a node of the heap.\<close>

definition valid_arg :: "heap \<Rightarrow> pyarg \<Rightarrow> bool" where
  "valid_arg h a = (case a of Num x \<Rightarrow> True | Ref r \<Rightarrow> r < length h)"

text \<open>A fresh node without operands: \<^verbatim>\<open>Value(x)\<close>.\<close>

definition leaf :: "real \<Rightarrow> Value" where
  "leaf x = \<lparr>data = x, grad = 0, closure = NoOp, prev = []\<rparr>"

text \<open>The number of parameters of the layers with indices \<open>ks\<close> into the size list \<open>sz\<close>.\<close>

definition layer_params :: "nat list \<Rightarrow> nat list \<Rightarrow> nat" where
  "layer_params sz ks = (\<Sum>k\<leftarrow>ks. (sz ! Suc k) * Suc (sz ! k))"

text \<open>
  The parameters of a neuron with \<open>m\<close> weights are nodes of the heap that hold numbers
  of \<^verbatim>\<open>random.uniform(-1,1)\<close>.
\<close>

definition params_in_range :: "heap \<Rightarrow> nat \<Rightarrow> Neuron \<Rightarrow> bool" where
  "params_in_range h m n =
     (b n < length h \<and> \<bar>data (h ! b n)\<bar> \<le> 1 \<and> length (w n) = m \<and>
      (\<forall>r \<in> set (w n). r < length h \<and> \<bar>data (h ! r)\<bar> \<le> 1))"

text \<open>The arguments are valid in the heap and stand for numbers of magnitude at most \<open>B\<close>.\<close>

definition args_in_range :: "heap \<Rightarrow> real \<Rightarrow> pyarg list \<Rightarrow> bool" where
  "args_in_range h B xs = (\<forall>a \<in> set xs. valid_arg h a \<and> \<bar>arg_value h a\<bar> \<le> B)"

text \<open>A sequence of draws: every draw is 0.5.\<close>

definition half_draws :: "nat \<Rightarrow> real" where
  "half_draws k = 1 / 2"

text \<open>The nodes a closure writes to: the references it captures.\<close>

fun operands :: "closure \<Rightarrow> nat list" where
  "operands NoOp = []"
| "operands (AddBw self other) = [self, other]"
| "operands (MulBw self other) = [self, other]"
| "operands (PowBw self k) = [self]"
| "operands (TanhBw self t) = [self]"
| "operands (ExpBw self) = [self]"

text \<open>
  The shape of a heap the operators build: every node was made after its operands, and
  its \<^verbatim>\<open>_prev\<close> is the set of the nodes its closure captures, each listed once.
\<close>

definition acyclic_heap :: "heap \<Rightarrow> bool" where
  "acyclic_heap h = (\<forall>m \<in> {..<length h}. \<forall>c \<in> set (prev (h ! m)). c < m)"

definition wf_heap :: "heap \<Rightarrow> bool" where
  "wf_heap h =
     (\<forall>m \<in> {..<length h}.
        (\<forall>c \<in> set (prev (h ! m)). c < m) \<and> distinct (prev (h ! m)) \<and>
        set (prev (h ! m)) = set (operands (closure (h ! m))))"

text \<open>The nodes reachable backward from \<open>r\<close>, \<open>r\<close> included, along \<^verbatim>\<open>_prev\<close>.\<close>

definition reach :: "heap \<Rightarrow> nat \<Rightarrow> nat set" where
  "reach h r = {n. (r, n) \<in> {(m, c). c \<in> set (prev (h ! m))}\<^sup>*}"

text \<open>In \<open>topo\<close>, every operand of a node stands before the node.\<close>

definition operands_first :: "heap \<Rightarrow> nat list \<Rightarrow> bool" where
  "operands_first h topo =
     (\<forall>i \<in> {..<length topo}. set (prev (h ! (topo ! i))) \<subseteq> set (take i topo))"

text \<open>In \<open>ms\<close>, no node is an operand of a node that stands after it.\<close>

fun consumers_first :: "heap \<Rightarrow> nat list \<Rightarrow> bool" where
  "consumers_first h [] = True"
| "consumers_first h (m # ms) =
     ((\<forall>m' \<in> set ms. m \<notin> set (prev (h ! m'))) \<and> consumers_first h ms)"

text \<open>
  The real power without the bound of the doubles, taken as 0 where the power is not a
  real number (a zero base with a negative exponent, a negative base with an exponent
  that is not whole). Where \<open>pypow\<close> returns a float, this is the float.
\<close>

definition rpow :: "real \<Rightarrow> real \<Rightarrow> real" where
  "rpow x k =
     (if x = 0 then (if k = 0 then 1 else 0)
      else if 0 < x then x powr k
      else if of_int \<lfloor>k\<rfloor> = k then x powi \<lfloor>k\<rfloor>
      else 0)"

text \<open>
  What one unit of gradient at node \<open>m\<close> adds to the gradient of node \<open>n\<close> when the
  closure of \<open>m\<close> runs: the sum, over the operand slots of \<open>m\<close> that hold \<open>n\<close>, of the
  factor the closure multiplies \<^verbatim>\<open>out.grad\<close> by.
\<close>

definition local_grad :: "heap \<Rightarrow> nat \<Rightarrow> nat \<Rightarrow> real" where
  "local_grad h m n =
     (case closure (h ! m) of
        NoOp \<Rightarrow> 0
      | AddBw self other \<Rightarrow> (if n = self then 1 else 0) + (if n = other then 1 else 0)
      | MulBw self other \<Rightarrow>
          (if n = self then data (h ! other) else 0) + (if n = other then data (h ! self) else 0)
      | PowBw self k \<Rightarrow>
          (if n = self then k * rpow (data (h ! self)) (k - 1) else 0)
      | TanhBw self t \<Rightarrow> (if n = self then 1 - t\<^sup>2 else 0)
      | ExpBw self \<Rightarrow> (if n = self then data (h ! m) else 0))"

text \<open>Two heaps with the same nodes up to the gradients.\<close>

definition same_graph :: "heap \<Rightarrow> heap \<Rightarrow> bool" where
  "same_graph h h' =
     (length h' = length h \<and>
      (\<forall>k \<in> {..<length h}. data (h' ! k) = data (h ! k) \<and> closure (h' ! k) = closure (h ! k) \<and>
         prev (h' ! k) = prev (h ! k)))"

text \<open>
  A small graph for the examples: \<^verbatim>\<open>a = Value(2.0)\<close>, \<^verbatim>\<open>b = Value(3.0)\<close>,
  \<^verbatim>\<open>c = a * b\<close>, \<^verbatim>\<open>d = c + a\<close> and an unrelated \<^verbatim>\<open>e = Value(7.0)\<close>, where \<open>a\<close> and \<open>e\<close>
  carry gradients left from an earlier pass; and the same graph after \<^verbatim>\<open>d.backward()\<close>.
\<close>

definition demo_heap :: heap where
  "demo_heap =
     [\<lparr>data = 2, grad = 5, closure = NoOp, prev = []\<rparr>,
      \<lparr>data = 3, grad = 0, closure = NoOp, prev = []\<rparr>,
      \<lparr>data = 6, grad = 0, closure = MulBw 0 1, prev = [0, 1]\<rparr>,
      \<lparr>data = 8, grad = 0, closure = AddBw 2 0, prev = [2, 0]\<rparr>,
      \<lparr>data = 7, grad = 7, closure = NoOp, prev = []\<rparr>]"

definition demo_after :: heap where
  "demo_after =
     [\<lparr>data = 2, grad = 9, closure = NoOp, prev = []\<rparr>,
      \<lparr>data = 3, grad = 2, closure = NoOp, prev = []\<rparr>,
      \<lparr>data = 6, grad = 1, closure = MulBw 0 1, prev = [0, 1]\<rparr>,
      \<lparr>data = 8, grad = 1, closure = AddBw 2 0, prev = [2, 0]\<rparr>,
      \<lparr>data = 7, grad = 7, closure = NoOp, prev = []\<rparr>]"

subsection \<open>The value of the root as a function of one node\<close>

text \<open>
  Node \<open>m\<close> is consistent if its \<open>data\<close> is what its operator computes from the
  \<open>data\<close> of its operands, as it is when the operator has made the node and no \<open>data\<close>
  of an operand has been assigned since.
\<close>

definition forward_ok_at :: "heap \<Rightarrow> nat \<Rightarrow> bool" where
  "forward_ok_at h m =
     (case closure (h ! m) of
        NoOp \<Rightarrow> True
      | AddBw self other \<Rightarrow> data (h ! m) = data (h ! self) + data (h ! other)
      | MulBw self other \<Rightarrow> data (h ! m) = data (h ! self) * data (h ! other)
      | PowBw self k \<Rightarrow> pypow (data (h ! self)) k = Inr (PyFloat (data (h ! m)))
      | TanhBw self t \<Rightarrow>
          t = (exp (2 * data (h ! self)) - 1) / (exp (2 * data (h ! self)) + 1) \<and>
          data (h ! m) = t
      | ExpBw self \<Rightarrow> data (h ! m) = exp (data (h ! self)))"

definition forward_ok :: "heap \<Rightarrow> bool" where
  "forward_ok h = list_all (forward_ok_at h) [0..<length h]"

text \<open>
  The forward formula of a node, given the list \<open>vs\<close> of the values of the nodes made
  before it.
\<close>

definition node_value :: "Value \<Rightarrow> real list \<Rightarrow> real" where
  "node_value v vs =
     (case closure v of
        NoOp \<Rightarrow> data v
      | AddBw self other \<Rightarrow> vs ! self + vs ! other
      | MulBw self other \<Rightarrow> vs ! self * vs ! other
      | PowBw self k \<Rightarrow> rpow (vs ! self) k
      | TanhBw self t \<Rightarrow> (exp (2 * (vs ! self)) - 1) / (exp (2 * (vs ! self)) + 1)
      | ExpBw self \<Rightarrow> exp (vs ! self))"

text \<open>
  The values of the first \<open>k\<close> nodes when node \<open>n\<close> is given the value \<open>x\<close> and every
  other node is computed again from its operands (a leaf keeps its \<open>data\<close>);
  \<open>value_with h n x m\<close> is the value node \<open>m\<close> gets.
\<close>

fun revals :: "heap \<Rightarrow> nat \<Rightarrow> real \<Rightarrow> nat \<Rightarrow> real list" where
  "revals h n x 0 = []"
| "revals h n x (Suc k) =
     revals h n x k @ [if k = n then x else node_value (h ! k) (revals h n x k)]"

definition value_with :: "heap \<Rightarrow> nat \<Rightarrow> real \<Rightarrow> nat \<Rightarrow> real" where
  "value_with h n x m = revals h n x (Suc m) ! m"

text \<open>
  The derivative of node \<open>m\<close> with respect to node \<open>n\<close> by the chain rule, forward from
  \<open>n\<close>.
\<close>

fun tangent :: "heap \<Rightarrow> nat \<Rightarrow> nat \<Rightarrow> real" where
  "tangent h n m = (if m = n then 1 else (\<Sum>c \<in> {..<m}. local_grad h m c * tangent h n c))"

declare tangent.simps [simp del]

text \<open>
  The heaps the operators build from nothing. Negation, subtraction, division and the
  reflected forms are made of these. An operator that raises builds nothing, and a
  power that is complex is not stored in a heap of reals.
\<close>

inductive built :: "heap \<Rightarrow> bool" where
  built_empty: "built []"
| built_leaf: "built h \<Longrightarrow> built (snd (Value_init h x [] NoOp))"
| built_add: "built h \<Longrightarrow> a < length h \<Longrightarrow> valid_arg h y \<Longrightarrow> built (snd (Value_add h a y))"
| built_mul: "built h \<Longrightarrow> a < length h \<Longrightarrow> valid_arg h y \<Longrightarrow> built (snd (Value_mul h a y))"
| built_pow: "built h \<Longrightarrow> a < length h \<Longrightarrow> Value_pow h a y = Inr (RealNode r h') \<Longrightarrow> built h'"
| built_tanh: "built h \<Longrightarrow> a < length h \<Longrightarrow> Value_tanh h a = Inr (r, h') \<Longrightarrow> built h'"
| built_exp: "built h \<Longrightarrow> a < length h \<Longrightarrow> Value_exp h a = Inr (r, h') \<Longrightarrow> built h'"

text \<open>The graph \<^verbatim>\<open>d = a * b + a\<close> of the examples, freshly built.\<close>

definition demo_fresh :: heap where
  "demo_fresh =
     [\<lparr>data = 2, grad = 0, closure = NoOp, prev = []\<rparr>,
      \<lparr>data = 3, grad = 0, closure = NoOp, prev = []\<rparr>,
      \<lparr>data = 6, grad = 0, closure = MulBw 0 1, prev = [0, 1]\<rparr>,
      \<lparr>data = 8, grad = 0, closure = AddBw 2 0, prev = [2, 0]\<rparr>]"

text \<open>
  What the theorem on \<^verbatim>\<open>backward\<close> asks of a heap, for all its nodes at once: the shape,
  the consistency of every node, and gradients that are all 0.
\<close>

definition heap_ok :: "heap \<Rightarrow> bool" where
  "heap_ok h = (wf_heap h \<and> forward_ok h \<and> (\<forall>n \<in> {..<length h}. grad (h ! n) = 0))"

section \<open>Properties of the operators\<close>

subsection \<open>The range of the doubles\<close>

lemma float_inf_gt_one: "1 < float_inf"
  by (simp add: float_inf_def)

lemma exp_ge_power: "(5 / 2) ^ n \<le> exp (real n)"
proof -
  have "(5 / 2 :: real) \<le> exp 1" using exp_lower_Taylor_quadratic[of "1::real"] by simp
  then have "(5 / 2 :: real) ^ n \<le> exp 1 ^ n" by (intro power_mono) simp_all
  also have "\<dots> = exp (real n)" using exp_of_nat_mult[of n "1::real"] by simp
  finally show ?thesis .
qed

lemma exp_overflows: "780 \<le> x \<Longrightarrow> float_inf \<le> exp x"
proof -
  assume x: "780 \<le> x"
  have "float_inf \<le> 2 ^ 1024" by (simp add: float_inf_def)
  also have "(2::real) ^ 1024 \<le> (5 / 2) ^ 780" by (simp add: power_divide field_simps)
  also have "\<dots> \<le> exp (real 780)" by (rule exp_ge_power)
  also have "\<dots> \<le> exp x" using x by simp
  finally show ?thesis .
qed

lemma exp_le_three_power: "x \<le> real n \<Longrightarrow> exp x \<le> 3 ^ n"
proof -
  assume "x \<le> real n"
  then have "exp x \<le> exp (real n)" by simp
  also have "\<dots> = exp 1 ^ n" using exp_of_nat_mult[of n "1::real"] by simp
  also have "\<dots> \<le> 3 ^ n" using exp_le by (intro power_mono) simp_all
  finally show ?thesis .
qed

lemma exp_in_range: "x \<le> 600 \<Longrightarrow> exp x < float_inf"
proof -
  assume "x \<le> 600"
  then have "exp x \<le> 3 ^ 600" using exp_le_three_power[of x 600] by simp
  also have "(3::real) ^ 600 < float_inf" by (simp add: float_inf_def)
  finally show ?thesis .
qed

lemma math_exp_cases:
  "math_exp x = Inl OverflowError \<and> float_inf \<le> exp x \<or>
   math_exp x = Inr (exp x) \<and> exp x < float_inf"
  by (simp add: math_exp_def)

subsection \<open>The power\<close>

lemma floor_minus_one: "\<lfloor>- 1 :: real\<rfloor> = - 1"
  by (rule floor_unique) simp_all

lemma pypow_inverse:
  "x \<noteq> 0 \<Longrightarrow>
   pypow x (- 1) =
     (if float_inf \<le> \<bar>inverse x\<bar> then Inl OverflowError else Inr (PyFloat (inverse x)))"
  by (auto simp: pypow_def powr_minus power_int_minus floor_minus_one abs_if)

lemma pypow_PyFloatD:
  assumes "pypow x k = Inr (PyFloat y)"
  shows "y = rpow x k" and "x = 0 \<longrightarrow> 0 \<le> k" and "x < 0 \<longrightarrow> of_int \<lfloor>k\<rfloor> = k"
    and "\<bar>y\<bar> < float_inf"
  using assms float_inf_gt_one
  by (auto simp: pypow_def rpow_def split: if_splits)

lemma pypow_whole_not_complex: "of_int \<lfloor>k\<rfloor> = k \<Longrightarrow> pypow x k \<noteq> Inr (PyComplex z)"
  by (auto simp: pypow_def)

lemma Value_pow_whole_not_complex:
  "of_int \<lfloor>k\<rfloor> = k \<Longrightarrow> Value_pow h a (Num k) \<noteq> Inr (ComplexNode z c ps)"
  using pypow_whole_not_complex[of k "data (h ! a)"]
  by (auto simp: Value_pow_def split: sum.splits pynum.splits prod.splits)

lemma Value_truediv_real: "Value_truediv h a y \<noteq> Inr (ComplexNode z c ps)"
proof -
  have w: "of_int \<lfloor>- 1 :: real\<rfloor> = (- 1 :: real)" by (simp add: floor_minus_one)
  show ?thesis
    using pypow_whole_not_complex[OF w] Value_pow_whole_not_complex[OF w]
    by (cases y)
      (auto simp: Value_truediv_def split: sum.splits pynum.splits prod.splits node_out.splits)
qed

subsection \<open>A plain number on the left\<close>

text \<open>
  \<^verbatim>\<open>x + a\<close> and \<^verbatim>\<open>x * a\<close> go to \<^verbatim>\<open>__radd__\<close> and \<^verbatim>\<open>__rmul__\<close>, which call the primary
  methods, and the node returned holds the sum or the product.
\<close>

lemma reflected_add_mul:
  assumes "a < length h"
  shows "reflected Add h x a = Inr (Value_add h a (Num x)) \<and>
     result_value (reflected Add h x a) = Some (data (h ! a) + x) \<and>
     reflected Mul h x a = Inr (Value_mul h a (Num x)) \<and>
     result_value (reflected Mul h x a) = Some (data (h ! a) * x)"
  using assms
  by (simp add: Value_radd_def Value_rmul_def Value_add_def Value_mul_def promote_def
      Value_init_def result_value_def nth_append)

text \<open>
  With the number on the right, all four operators return a node holding the result:
  \<^verbatim>\<open>a - x\<close> is \<^verbatim>\<open>a + (-x)\<close>, and \<^verbatim>\<open>a / x\<close> is \<^verbatim>\<open>a * x**-1\<close>, which returns when \<open>x\<close> is
  not 0 and its inverse is a double.
\<close>

lemma primary_forms:
  assumes "a < length h"
  shows "result_value (Inr (Value_add h a (Num x))) = Some (data (h ! a) + x)"
    and "result_value (Inr (Value_mul h a (Num x))) = Some (data (h ! a) * x)"
    and "result_value (Inr (Value_sub h a (Num x))) = Some (data (h ! a) - x)"
    and "x \<noteq> 0 \<Longrightarrow> \<bar>inverse x\<bar> < float_inf \<Longrightarrow>
      \<exists>r h'. Value_truediv h a (Num x) = Inr (RealNode r h') \<and>
        data (h' ! r) = data (h ! a) * inverse x"
  using assms
  by (simp_all add: Value_sub_def Value_add_def Value_mul_def Value_truediv_def promote_def
      Value_init_def result_value_def nth_append pypow_inverse)

text \<open>
  Claim C4 at the inputs where the code departs from it: \<^verbatim>\<open>1 - a\<close> and \<^verbatim>\<open>1 / a\<close> for
  the leaf \<^verbatim>\<open>a = Value(2.0)\<close> raise \<^verbatim>\<open>TypeError\<close>, the class having \<^verbatim>\<open>__radd__\<close> and
  \<^verbatim>\<open>__rmul__\<close> but no \<^verbatim>\<open>__rsub__\<close> and no \<^verbatim>\<open>__rtruediv__\<close>.
\<close>

theorem reflected_sub_div_raise:
  "reflected Sub [leaf 2] 1 0 = Inl TypeError \<and> reflected Div [leaf 2] 1 0 = Inl TypeError"
  by simp

subsection \<open>The contract of the power\<close>






subsection \<open>Division by zero\<close>

text \<open>
  Claim C9: dividing a \<^verbatim>\<open>Value\<close> by a divisor that stands for 0, a plain number or a
  \<^verbatim>\<open>Value\<close>, returns no node and raises \<^verbatim>\<open>ZeroDivisionError\<close>, from the power \<open>-1\<close>
  the division is made of.
\<close>

theorem truediv_by_zero_raises:
  "arg_value h other = 0 \<Longrightarrow> Value_truediv h self other = Inl ZeroDivisionError"
  by (cases other) (simp_all add: arg_value_def Value_truediv_def Value_pow_def pypow_def)

theorem truediv_by_zero_raises_witness:
  "arg_value [\<lparr>data = 3, grad = 0, closure = NoOp, prev = []\<rparr>,
              \<lparr>data = 0, grad = 0, closure = NoOp, prev = []\<rparr>] (Ref 1) = 0 \<and>
   Value_truediv [\<lparr>data = 3, grad = 0, closure = NoOp, prev = []\<rparr>,
                  \<lparr>data = 0, grad = 0, closure = NoOp, prev = []\<rparr>] 0 (Ref 1) =
     Inl ZeroDivisionError"
  using truediv_by_zero_raises [of
      "[\<lparr>data = 3, grad = 0, closure = NoOp, prev = []\<rparr>,
        \<lparr>data = 0, grad = 0, closure = NoOp, prev = []\<rparr>]" "Ref 1" 0]
  by (simp add: arg_value_def)

section \<open>Properties of the network classes\<close>

lemma Value_init_facts:
  "Value_init h d cs bw = (r, h') \<Longrightarrow>
     r = length h \<and> length h' = Suc (length h) \<and> prefix h h' \<and> data (h' ! r) = d"
  by (auto simp: Value_init_def)

lemma prefix_nth: "prefix h h' \<Longrightarrow> n < length h \<Longrightarrow> h' ! n = h ! n"
  by (auto simp: prefix_def nth_append)

lemma prefix_valid_arg: "prefix h h' \<Longrightarrow> valid_arg h a \<Longrightarrow> valid_arg h' a"
  by (cases a) (auto simp: valid_arg_def dest: prefix_length_le)

lemma prefix_arg_value: "prefix h h' \<Longrightarrow> valid_arg h a \<Longrightarrow> arg_value h' a = arg_value h a"
  by (cases a) (auto simp: valid_arg_def arg_value_def prefix_nth)

lemma Value_mul_facts:
  assumes "Value_mul h a x = (r, h')" "a < length h" "valid_arg h x"
  shows "prefix h h' \<and> r < length h' \<and> data (h' ! r) = data (h ! a) * arg_value h x"
  using assms
  by (cases x) (auto simp: Value_mul_def promote_def Value_init_def valid_arg_def arg_value_def nth_append)

lemma Value_add_facts:
  assumes "Value_add h a x = (r, h')" "a < length h" "valid_arg h x"
  shows "prefix h h' \<and> r < length h' \<and> data (h' ! r) = data (h ! a) + arg_value h x"
  using assms
  by (cases x) (auto simp: Value_add_def promote_def Value_init_def valid_arg_def arg_value_def nth_append)

lemma neuron_sum_facts:
  assumes "neuron_sum h acc ps = (act, h')" "acc < length h"
    "\<forall>p \<in> set ps. fst p < length h \<and> valid_arg h (snd p)"
  shows "prefix h h' \<and> act < length h' \<and>
     data (h' ! act) = data (h ! acc) + (\<Sum>p\<leftarrow>ps. data (h ! fst p) * arg_value h (snd p))"
  using assms
proof (induction ps arbitrary: h acc)
  case Nil
  then show ?case by simp
next
  case (Cons p ps)
  obtain wi xi where p: "p = (wi, xi)" by (cases p)
  obtain m h1 where m: "Value_mul h wi xi = (m, h1)" by (cases "Value_mul h wi xi")
  obtain s h2 where s: "Value_add h1 acc (Ref m) = (s, h2)" by (cases "Value_add h1 acc (Ref m)")
  from Cons.prems p have wi: "wi < length h" "valid_arg h xi" by auto
  from Value_mul_facts[OF m wi]
  have m1: "prefix h h1" "m < length h1" "data (h1 ! m) = data (h ! wi) * arg_value h xi" by auto
  have acc1: "acc < length h1" using Cons.prems(2) m1(1) by (auto dest: prefix_length_le)
  have "valid_arg h1 (Ref m)" using m1(2) by (simp add: valid_arg_def)
  from Value_add_facts[OF s acc1 this]
  have s1: "prefix h1 h2" "s < length h2" "data (h2 ! s) = data (h1 ! acc) + data (h1 ! m)"
    by (auto simp: arg_value_def)
  have p02: "prefix h h2" using m1(1) s1(1) by (rule prefix_order.trans)
  have rest: "neuron_sum h2 s ps = (act, h')" using Cons.prems(1) p m s by simp
  have ok: "\<forall>q \<in> set ps. fst q < length h2 \<and> valid_arg h2 (snd q)"
  proof
    fix q assume q: "q \<in> set ps"
    then have "fst q < length h" "valid_arg h (snd q)" using Cons.prems(3) by auto
    moreover have "length h \<le> length h2" using p02 by (rule prefix_length_le)
    ultimately show "fst q < length h2 \<and> valid_arg h2 (snd q)"
      using p02 by (auto intro: prefix_valid_arg)
  qed
  from Cons.IH[OF rest s1(2) ok]
  have r: "prefix h2 h'" "act < length h'"
    "data (h' ! act) = data (h2 ! s) + (\<Sum>q\<leftarrow>ps. data (h2 ! fst q) * arg_value h2 (snd q))"
    by auto
  have same: "(\<Sum>q\<leftarrow>ps. data (h2 ! fst q) * arg_value h2 (snd q)) =
      (\<Sum>q\<leftarrow>ps. data (h ! fst q) * arg_value h (snd q))"
    using Cons.prems(3) p02
    by (intro arg_cong[where f = sum_list] map_cong refl) (auto simp: prefix_nth prefix_arg_value)
  have "data (h1 ! acc) = data (h ! acc)" using m1(1) Cons.prems(2) by (simp add: prefix_nth)
  with r s1 m1 same p02 p show ?case
    by (auto intro: prefix_order.trans)
qed

subsection \<open>The activation\<close>

lemma tanh_formula: "(exp (2 * x) - 1) / (exp (2 * x) + 1) = tanh (x :: real)"
proof -
  have "tanh x = (exp x - exp (- x)) / (exp x + exp (- x))" by (rule tanh_altdef)
  also have "\<dots> = ((exp x - exp (- x)) * exp x) / ((exp x + exp (- x)) * exp x)" by simp
  also have "\<dots> = (exp (2 * x) - 1) / (exp (2 * x) + 1)"
    by (simp add: algebra_simps exp_add[symmetric] mult_2)
  finally show ?thesis by simp
qed

text \<open>
  \<^verbatim>\<open>tanh\<close> raises \<^verbatim>\<open>OverflowError\<close> exactly when \<open>exp (2 * x)\<close> is beyond the doubles, and
  returns a new node holding the hyperbolic tangent otherwise.
\<close>

lemma Value_tanh_overflows:
  "float_inf \<le> exp (2 * data (h ! a)) \<Longrightarrow> Value_tanh h a = Inl OverflowError"
  by (simp add: Value_tanh_def math_exp_def)

lemma Value_tanh_returns:
  "exp (2 * data (h ! a)) < float_inf \<Longrightarrow>
   Value_tanh h a =
     Inr (Value_init h (tanh (data (h ! a))) [a] (TanhBw a (tanh (data (h ! a)))))"
  by (simp add: Value_tanh_def math_exp_def Let_def tanh_formula)

lemma Value_tanh_facts:
  "Value_tanh h a = Inr (r, h') \<Longrightarrow>
     r = length h \<and> prefix h h' \<and> length h' = Suc (length h) \<and>
     data (h' ! r) = tanh (data (h ! a)) \<and> exp (2 * data (h ! a)) < float_inf"
  by (auto simp: Value_tanh_def math_exp_def Value_init_def Let_def tanh_formula
      split: if_splits)

lemma Value_tanh_result:
  "Value_tanh h a = Inl OverflowError \<or> (\<exists>r h'. Value_tanh h a = Inr (r, h'))"
  by (cases "float_inf \<le> exp (2 * data (h ! a))")
    (auto simp: Value_tanh_overflows Value_tanh_returns Value_init_def)

subsection \<open>A neuron\<close>

text \<open>
  The call of a neuron on a list, whatever the two lengths are. With \<open>s\<close> the bias plus
  the products of the weight and input pairs that \<^verbatim>\<open>zip\<close> makes, the call raises
  \<^verbatim>\<open>OverflowError\<close> when \<open>exp (2 * s)\<close> is beyond the doubles and returns a new node
  holding \<open>tanh s\<close> otherwise.
\<close>

lemma Neuron_call_value:
  assumes "b n < length h" "\<forall>r \<in> set (w n). r < length h" "\<forall>a \<in> set xs. valid_arg h a"
    and s: "s = data (h ! b n) +
      (\<Sum>i<min (length (w n)) (length xs). data (h ! (w n ! i)) * arg_value h (xs ! i))"
  shows "(float_inf \<le> exp (2 * s) \<longrightarrow> Neuron_call h n (Seq xs) = Inl OverflowError) \<and>
     (exp (2 * s) < float_inf \<longrightarrow>
        (\<exists>r h'. Neuron_call h n (Seq xs) = Inr (r, h') \<and> prefix h h' \<and> r < length h' \<and>
           data (h' ! r) = tanh s))"
proof -
  obtain act h1 where a: "neuron_sum h (b n) (zip (w n) xs) = (act, h1)"
    by (cases "neuron_sum h (b n) (zip (w n) xs)")
  have ok: "\<forall>p \<in> set (zip (w n) xs). fst p < length h \<and> valid_arg h (snd p)"
    using assms(2,3) by (auto dest: set_zip_leftD set_zip_rightD)
  from neuron_sum_facts[OF a assms(1) ok]
  have f: "prefix h h1" "act < length h1"
    "data (h1 ! act) = data (h ! b n) + (\<Sum>p\<leftarrow>zip (w n) xs. data (h ! fst p) * arg_value h (snd p))"
    by auto
  have "(\<Sum>p\<leftarrow>zip (w n) xs. data (h ! fst p) * arg_value h (snd p)) =
      (\<Sum>i<min (length (w n)) (length xs). data (h ! (w n ! i)) * arg_value h (xs ! i))"
    by (simp add: sum_list_sum_nth atLeast0LessThan)
  with f(3) s have d: "data (h1 ! act) = s" by simp
  have c: "Neuron_call h n (Seq xs) = Value_tanh h1 act" using a by (simp add: Neuron_call_def)
  have 1: "Neuron_call h n (Seq xs) = Inl OverflowError" if "float_inf \<le> exp (2 * s)"
    using that c d Value_tanh_overflows[of h1 act] by simp
  have 2: "\<exists>r h'. Neuron_call h n (Seq xs) = Inr (r, h') \<and> prefix h h' \<and> r < length h' \<and>
      data (h' ! r) = tanh s" if "exp (2 * s) < float_inf"
  proof -
    have "Value_tanh h1 act = Inr (Value_init h1 (tanh s) [act] (TanhBw act (tanh s)))"
      using that d Value_tanh_returns[of h1 act] by simp
    then obtain r h' where t: "Value_tanh h1 act = Inr (r, h')"
      by (cases "Value_init h1 (tanh s) [act] (TanhBw act (tanh s))") simp
    from Value_tanh_facts[OF t] f(1) d c t show ?thesis
      by (auto intro: prefix_order.trans)
  qed
  from 1 2 show ?thesis by blast
qed







lemma new_weights_facts:
  "new_weights h u i nin = (ws, h', j) \<Longrightarrow>
     j = i + nin \<and> h' = h @ map (\<lambda>k. leaf (u k)) [i..<i + nin] \<and> ws = [length h..<length h + nin]"
proof (induction nin arbitrary: h i ws h' j)
  case 0
  then show ?case by simp
next
  case (Suc nin)
  obtain rs h2 j2 where r: "new_weights (h @ [leaf (u i)]) u (Suc i) nin = (rs, h2, j2)"
    by (cases "new_weights (h @ [leaf (u i)]) u (Suc i) nin")
  from Suc.IH[OF r] have ih: "j2 = Suc i + nin" "h2 = (h @ [leaf (u i)]) @ map (\<lambda>k. leaf (u k)) [Suc i..<Suc i + nin]"
    "rs = [length (h @ [leaf (u i)])..<length (h @ [leaf (u i)]) + nin]" by auto
  from Suc.prems r have res: "ws = length h # rs" "h' = h2" "j = j2"
    by (auto simp: Value_init_def leaf_def)
  show ?case unfolding res ih by (simp add: upt_rec[of i] upt_rec[of "length h"])
qed

lemma Neuron_init_facts:
  "Neuron_init h u i nin = (n, h', j) \<Longrightarrow>
     j = i + Suc nin \<and> h' = h @ map (\<lambda>k. leaf (u k)) [i..<i + Suc nin] \<and>
     Neuron_parameters n = [length h..<length h + Suc nin] \<and> length (w n) = nin"
proof -
  assume a: "Neuron_init h u i nin = (n, h', j)"
  obtain ws h1 j1 where r: "new_weights h u i nin = (ws, h1, j1)"
    by (cases "new_weights h u i nin")
  note f = new_weights_facts[OF r]
  from a r have "n = \<lparr>w = ws, b = length h1\<rparr>" "h' = h1 @ [leaf (u j1)]" "j = Suc j1"
    by (auto simp: Neuron_init_def Value_init_def leaf_def)
  with f show ?thesis
    by (simp add: Neuron_parameters_def)
qed

lemma upt_split: "[i..<i + (c + d)] = [i..<i + c] @ [i + c..<i + c + d]"
  using upt_add_eq_append[of i "i + c" d] by (simp add: add.assoc)

lemma new_neurons_facts:
  "new_neurons h u i nin nout = (ns, h', j) \<Longrightarrow>
     j = i + nout * Suc nin \<and> h' = h @ map (\<lambda>k. leaf (u k)) [i..<i + nout * Suc nin] \<and>
     concat (map Neuron_parameters ns) = [length h..<length h + nout * Suc nin] \<and>
     length ns = nout \<and> (\<forall>n \<in> set ns. length (w n) = nin)"
proof (induction nout arbitrary: h i ns h' j)
  case 0
  then show ?case by simp
next
  case (Suc nout)
  obtain n h1 j1 where n: "Neuron_init h u i nin = (n, h1, j1)"
    by (cases "Neuron_init h u i nin")
  obtain rs h2 j2 where r: "new_neurons h1 u j1 nin nout = (rs, h2, j2)"
    by (cases "new_neurons h1 u j1 nin nout")
  define c where "c = Suc nin"
  define d where "d = nout * Suc nin"
  have p: "Suc nout * Suc nin = c + d" by (simp add: c_def d_def)
  from Neuron_init_facts[OF n] have fn: "j1 = i + c" "h1 = h @ map (\<lambda>k. leaf (u k)) [i..<i + c]"
    "Neuron_parameters n = [length h..<length h + c]" "length (w n) = nin"
    by (simp_all add: c_def)
  have l1: "length h1 = length h + c" using fn by simp
  from Suc.IH[OF r] have fr: "j2 = j1 + d" "h2 = h1 @ map (\<lambda>k. leaf (u k)) [j1..<j1 + d]"
    "concat (map Neuron_parameters rs) = [length h1..<length h1 + d]"
    "length rs = nout" "\<forall>n \<in> set rs. length (w n) = nin"
    by (simp_all add: d_def)
  from Suc.prems n r have res: "ns = n # rs" "h' = h2" "j = j2" by auto
  show ?case unfolding res p upt_split using fn fr l1
    by (simp add: add.assoc)
qed

lemma Layer_init_facts:
  "Layer_init h u i nin nout = (l, h', j) \<Longrightarrow>
     j = i + nout * Suc nin \<and> h' = h @ map (\<lambda>k. leaf (u k)) [i..<i + nout * Suc nin] \<and>
     Layer_parameters l = [length h..<length h + nout * Suc nin] \<and>
     length (neurons l) = nout \<and> (\<forall>n \<in> set (neurons l). length (w n) = nin)"
proof -
  assume a: "Layer_init h u i nin nout = (l, h', j)"
  obtain ns h1 j1 where r: "new_neurons h u i nin nout = (ns, h1, j1)"
    by (cases "new_neurons h u i nin nout")
  from a r have "l = \<lparr>neurons = ns\<rparr>" "h' = h1" "j = j1" by (auto simp: Layer_init_def)
  with new_neurons_facts[OF r] show ?thesis by (simp add: Layer_parameters_def)
qed

lemma new_layers_facts:
  "new_layers h u i sz ks = (ls, h', j) \<Longrightarrow>
     j = i + layer_params sz ks \<and> h' = h @ map (\<lambda>k. leaf (u k)) [i..<i + layer_params sz ks] \<and>
     concat (map Layer_parameters ls) = [length h..<length h + layer_params sz ks] \<and>
     map (\<lambda>l. length (neurons l)) ls = map (\<lambda>k. sz ! Suc k) ks"
proof (induction ks arbitrary: h i ls h' j)
  case Nil
  then show ?case by (simp add: layer_params_def)
next
  case (Cons k ks)
  obtain l h1 j1 where l: "Layer_init h u i (sz ! k) (sz ! Suc k) = (l, h1, j1)"
    by (cases "Layer_init h u i (sz ! k) (sz ! Suc k)")
  obtain rs h2 j2 where r: "new_layers h1 u j1 sz ks = (rs, h2, j2)"
    by (cases "new_layers h1 u j1 sz ks")
  note fl = Layer_init_facts[OF l]
  note fr = Cons.IH[OF r]
  define c where "c = (sz ! Suc k) * Suc (sz ! k)"
  define d where "d = layer_params sz ks"
  have p: "layer_params sz (k # ks) = c + d" by (simp add: layer_params_def c_def d_def)
  from Cons.prems l r have res: "ls = l # rs" "h' = h2" "j = j2" by auto
  from fl have fl': "j1 = i + c" "h1 = h @ map (\<lambda>k. leaf (u k)) [i..<i + c]"
    "Layer_parameters l = [length h..<length h + c]" "length (neurons l) = sz ! Suc k"
    by (simp_all add: c_def)
  have l1: "length h1 = length h + c" using fl' by simp
  from fr have fr': "j2 = j1 + d" "h2 = h1 @ map (\<lambda>k. leaf (u k)) [j1..<j1 + d]"
    "concat (map Layer_parameters rs) = [length h1..<length h1 + d]"
    "map (\<lambda>l. length (neurons l)) rs = map (\<lambda>k. sz ! Suc k) ks"
    by (simp_all add: d_def)
  show ?case unfolding res p upt_split using fl' fr' l1
    by (simp add: add.assoc)
qed

lemma new_layers_widths:
  "new_layers h u i sz ks = (ls, h', j) \<Longrightarrow>
     list_all2 (\<lambda>l k. \<forall>n \<in> set (neurons l). length (w n) = sz ! k) ls ks"
proof (induction ks arbitrary: h i ls h' j)
  case Nil
  then show ?case by simp
next
  case (Cons k ks)
  obtain l h1 j1 where l: "Layer_init h u i (sz ! k) (sz ! Suc k) = (l, h1, j1)"
    by (cases "Layer_init h u i (sz ! k) (sz ! Suc k)")
  obtain rs h2 j2 where r: "new_layers h1 u j1 sz ks = (rs, h2, j2)"
    by (cases "new_layers h1 u j1 sz ks")
  from Cons.prems l r have res: "ls = l # rs" by auto
  from Layer_init_facts[OF l] Cons.IH[OF r] show ?case unfolding res by simp
qed

text \<open>The parameters the constructor made hold the numbers drawn.\<close>

lemma new_layers_params_in_range:
  assumes r: "new_layers h u i sz ks = (ls, h', j)" and u: "\<forall>k. \<bar>u k\<bar> \<le> 1"
    and l: "l \<in> set ls" and n: "n \<in> set (neurons l)"
  shows "params_in_range h' (length (w n)) n"
proof -
  define c where "c = layer_params sz ks"
  note f = new_layers_facts[OF r, folded c_def]
  have h': "h' = h @ map (\<lambda>k. leaf (u k)) [i..<i + c]" using f by simp
  have ok: "r < length h' \<and> \<bar>data (h' ! r)\<bar> \<le> 1" if "r \<in> {length h..<length h + c}" for r
  proof -
    from that have k: "r - length h < c" by auto
    then have "map (\<lambda>k. leaf (u k)) [i..<i + c] ! (r - length h) = leaf (u (i + (r - length h)))"
      by simp
    with that have "h' ! r = leaf (u (i + (r - length h)))"
      unfolding h' by (simp add: nth_append del: nth_map)
    with that u show ?thesis unfolding h' by (simp add: leaf_def)
  qed
  have "set (Neuron_parameters n) \<subseteq> set (concat (map Layer_parameters ls))"
    using l n by (auto simp: Layer_parameters_def)
  also have "\<dots> = {length h..<length h + c}" using f by simp
  finally have "set (w n) \<union> {b n} \<subseteq> {length h..<length h + c}"
    by (simp add: Neuron_parameters_def)
  with ok show ?thesis unfolding params_in_range_def by blast
qed

lemma params_in_range_prefix:
  "prefix h h' \<Longrightarrow> params_in_range h m n \<Longrightarrow> params_in_range h' m n"
  using prefix_length_le[of h h'] by (auto simp: params_in_range_def prefix_nth)

lemma args_in_range_prefix: "prefix h h' \<Longrightarrow> args_in_range h B xs \<Longrightarrow> args_in_range h' B xs"
  by (auto simp: args_in_range_def prefix_valid_arg prefix_arg_value)

subsection \<open>Calls that return\<close>

text \<open>
  A neuron whose parameters are numbers of \<^verbatim>\<open>random.uniform(-1,1)\<close>, called on as many
  inputs as it has weights, each of magnitude at most \<open>B\<close>, has a sum of magnitude at most
  \<open>1 + m * B\<close>; when twice that is at most 600 the exponential is a double and the call
  returns.
\<close>

lemma Neuron_call_bounded:
  assumes p: "params_in_range h m n" and a: "args_in_range h B xs" and len: "length xs = m"
    and bound: "2 * (1 + real m * B) \<le> 600"
  shows "\<exists>r h'. Neuron_call h n (Seq xs) = Inr (r, h') \<and> prefix h h' \<and> r < length h' \<and>
     \<bar>data (h' ! r)\<bar> < 1"
proof -
  define t where "t = (\<lambda>i. data (h ! (w n ! i)) * arg_value h (xs ! i))"
  define s where "s = data (h ! b n) + (\<Sum>i<min (length (w n)) (length xs). t i)"
  define q where "q = real m * B"
  have 1: "b n < length h" "\<forall>r \<in> set (w n). r < length h" "\<forall>a \<in> set xs. valid_arg h a"
    using p a by (auto simp: params_in_range_def args_in_range_def)
  have lw: "length (w n) = m" using p by (simp add: params_in_range_def)
  have tb: "\<bar>t i\<bar> \<le> B" if "i < m" for i
  proof -
    have "\<bar>data (h ! (w n ! i))\<bar> \<le> 1" using p that lw by (simp add: params_in_range_def)
    moreover have "\<bar>arg_value h (xs ! i)\<bar> \<le> B" using a that len by (simp add: args_in_range_def)
    ultimately have "\<bar>data (h ! (w n ! i))\<bar> * \<bar>arg_value h (xs ! i)\<bar> \<le> 1 * B"
      by (intro mult_mono) simp_all
    then show ?thesis by (simp add: t_def abs_mult)
  qed
  have "\<bar>\<Sum>i<m. t i\<bar> \<le> (\<Sum>i<m. \<bar>t i\<bar>)" by (rule sum_abs)
  also have "\<dots> \<le> of_nat (card {..<m}) * B" using tb by (intro sum_bounded_above) simp
  finally have "\<bar>\<Sum>i<m. t i\<bar> \<le> real m * B" by simp
  then have "\<bar>\<Sum>i<m. t i\<bar> \<le> q" by (simp add: q_def)
  moreover have "\<bar>data (h ! b n)\<bar> \<le> 1" using p by (simp add: params_in_range_def)
  ultimately have "\<bar>s\<bar> \<le> 1 + q" unfolding s_def using lw len by simp
  moreover have "2 + 2 * q \<le> 600" using bound by (simp add: q_def)
  ultimately have "2 * s \<le> 600" by linarith
  then have ex: "exp (2 * s) < float_inf" by (rule exp_in_range)
  have "\<bar>tanh s\<bar> < 1" using tanh_real_bounds[of s] by (simp add: abs_if)
  with Neuron_call_value[OF 1 s_def[unfolded t_def]] ex show ?thesis by auto
qed

lemma Neuron_call_result:
  "Neuron_call h n (Seq xs) = Inl OverflowError \<or> (\<exists>r h'. Neuron_call h n (Seq xs) = Inr (r, h'))"
  using Value_tanh_result by (auto simp: Neuron_call_def split: prod.splits)

lemma layer_outs_result:
  "layer_outs h ns (Seq xs) = Inl OverflowError \<or>
   (\<exists>rs h'. layer_outs h ns (Seq xs) = Inr (rs, h') \<and> length rs = length ns)"
proof (induction ns arbitrary: h)
  case Nil
  then show ?case by simp
next
  case (Cons n ns)
  from Neuron_call_result[of h n xs] show ?case
  proof (elim disjE exE)
    assume "Neuron_call h n (Seq xs) = Inl OverflowError"
    then show ?thesis by simp
  next
    fix r h1 assume c: "Neuron_call h n (Seq xs) = Inr (r, h1)"
    from Cons.IH[of h1] c show ?thesis by auto
  qed
qed

lemma Layer_call_result:
  "Layer_call h l (Seq xs) = Inl OverflowError \<or>
   (\<exists>rs h'. length rs = length (neurons l) \<and>
      Layer_call h l (Seq xs) =
        Inr (if length rs = 1 then Single (rs ! 0) else Seq (map Ref rs), h'))"
  using layer_outs_result[of h "neurons l" xs]
proof (elim disjE exE conjE)
  assume "layer_outs h (neurons l) (Seq xs) = Inl OverflowError"
  then show ?thesis by (simp add: Layer_call_def)
next
  fix rs h' assume "layer_outs h (neurons l) (Seq xs) = Inr (rs, h')" "length rs = length (neurons l)"
  then have "length rs = length (neurons l) \<and>
      Layer_call h l (Seq xs) =
        Inr (if length rs = 1 then Single (rs ! 0) else Seq (map Ref rs), h')"
    by (simp add: Layer_call_def)
  then show ?thesis by blast
qed

lemma layer_outs_bounded:
  assumes "\<forall>n \<in> set ns. params_in_range h m n" "args_in_range h B xs" "length xs = m"
    "2 * (1 + real m * B) \<le> 600"
  shows "\<exists>rs h'. layer_outs h ns (Seq xs) = Inr (rs, h') \<and> prefix h h' \<and>
     length rs = length ns \<and> (\<forall>r \<in> set rs. r < length h' \<and> \<bar>data (h' ! r)\<bar> < 1)"
  using assms
proof (induction ns arbitrary: h)
  case Nil
  then show ?case by simp
next
  case (Cons n ns)
  from Cons.prems(1) have pn: "params_in_range h m n" by simp
  from Neuron_call_bounded[OF pn Cons.prems(2,3,4)]
  obtain r h1 where c: "Neuron_call h n (Seq xs) = Inr (r, h1)" "prefix h h1" "r < length h1"
    "\<bar>data (h1 ! r)\<bar> < 1"
    by blast
  have p1: "\<forall>n \<in> set ns. params_in_range h1 m n"
    using Cons.prems(1) c(2) by (auto intro: params_in_range_prefix)
  have a1: "args_in_range h1 B xs" using Cons.prems(2) c(2) by (rule args_in_range_prefix[rotated])
  from Cons.IH[OF p1 a1 Cons.prems(3,4)]
  obtain rs h2 where rs: "layer_outs h1 ns (Seq xs) = Inr (rs, h2)" "prefix h1 h2"
    "length rs = length ns" "\<forall>r \<in> set rs. r < length h2 \<and> \<bar>data (h2 ! r)\<bar> < 1"
    by blast
  have "r < length h2" using c(3) rs(2) by (auto dest: prefix_length_le)
  moreover have "data (h2 ! r) = data (h1 ! r)" using c(3) rs(2) by (simp add: prefix_nth)
  moreover have "prefix h h2" using c(2) rs(2) by (rule prefix_order.trans)
  ultimately show ?case using c rs by auto
qed

text \<open>The outputs of a layer, handed to the next one, are arguments of magnitude below 1.\<close>

lemma outputs_in_range:
  "\<forall>r \<in> set rs. r < length h \<and> \<bar>data (h ! r)\<bar> < 1 \<Longrightarrow> args_in_range h 1 (map Ref rs)"
  by (auto simp: args_in_range_def valid_arg_def arg_value_def intro: less_imp_le)

subsection \<open>The network of the notebook\<close>

lemma mlp_3_4_4_1_layers:
  assumes "new_layers h u i [3, 4, 4, 1] [0, 1, 2] = (ls, h1, j)"
  shows "\<exists>l1 l2 l3 n3. ls = [l1, l2, l3] \<and> length (neurons l1) = 4 \<and> length (neurons l2) = 4 \<and>
     neurons l3 = [n3] \<and> (\<forall>n \<in> set (neurons l1). length (w n) = 3) \<and>
     (\<forall>n \<in> set (neurons l2). length (w n) = 4) \<and> length (w n3) = 4"
proof -
  from new_layers_facts[OF assms] have "map (\<lambda>l. length (neurons l)) ls = [4, 4, 1]" by simp
  then obtain l1 l2 l3 where ls: "ls = [l1, l2, l3]" "length (neurons l1) = 4"
    "length (neurons l2) = 4" "length (neurons l3) = 1"
    by (auto simp: map_eq_Cons_conv)
  from ls(4) obtain n3 where n3: "neurons l3 = [n3]" by (cases "neurons l3") auto
  from new_layers_widths[OF assms] ls(1) n3 ls(2,3) show ?thesis by simp
qed

lemma mlp_call_chain:
  assumes "length (neurons l1) = 4" "length (neurons l2) = 4" "neurons l3 = [n3]"
  shows "MLP_call h \<lparr>layers = [l1, l2, l3]\<rparr> (Seq xs) = Inl OverflowError \<or>
     (\<exists>ys1 g1 ys2 g2 r h2.
        Layer_call h l1 (Seq xs) = Inr (Seq ys1, g1) \<and>
        Layer_call g1 l2 (Seq ys1) = Inr (Seq ys2, g2) \<and>
        Neuron_call g2 n3 (Seq ys2) = Inr (r, h2) \<and>
        MLP_call h \<lparr>layers = [l1, l2, l3]\<rparr> (Seq xs) = Inr (Single r, h2))"
proof -
  consider "Layer_call h l1 (Seq xs) = Inl OverflowError"
    | rs1 g1 where "length rs1 = 4" "Layer_call h l1 (Seq xs) = Inr (Seq (map Ref rs1), g1)"
    using Layer_call_result[of h l1 xs] assms(1) by auto
  then show ?thesis
  proof cases
    case 1
    then show ?thesis by (simp add: MLP_call_def)
  next
    case (2 rs1 g1)
    consider "Layer_call g1 l2 (Seq (map Ref rs1)) = Inl OverflowError"
      | rs2 g2 where "length rs2 = 4"
        "Layer_call g1 l2 (Seq (map Ref rs1)) = Inr (Seq (map Ref rs2), g2)"
      using Layer_call_result[of g1 l2 "map Ref rs1"] assms(2) by auto
    then show ?thesis
    proof cases
      case 1
      with 2 show ?thesis by (simp add: MLP_call_def)
    next
      case (2 rs2 g2)
      note l2 = 2
      from Neuron_call_result[of g2 n3 "map Ref rs2"] show ?thesis
      proof (elim disjE exE)
        assume "Neuron_call g2 n3 (Seq (map Ref rs2)) = Inl OverflowError"
        with \<open>Layer_call h l1 (Seq xs) = Inr (Seq (map Ref rs1), g1)\<close> l2 assms(3)
        show ?thesis by (simp add: MLP_call_def Layer_call_def)
      next
        fix r h2 assume "Neuron_call g2 n3 (Seq (map Ref rs2)) = Inr (r, h2)"
        with \<open>Layer_call h l1 (Seq xs) = Inr (Seq (map Ref rs1), g1)\<close> l2 assms(3)
        show ?thesis by (simp add: MLP_call_def Layer_call_def)
      qed
    qed
  qed
qed

lemma mlp_call_bounded:
  assumes "\<forall>n \<in> set (neurons l1). params_in_range h 3 n" "length (neurons l1) = 4"
    "\<forall>n \<in> set (neurons l2). params_in_range h 4 n" "length (neurons l2) = 4"
    "params_in_range h 4 n3" "neurons l3 = [n3]"
    "args_in_range h 99 xs" "length xs = 3"
  shows "\<exists>r h2. MLP_call h \<lparr>layers = [l1, l2, l3]\<rparr> (Seq xs) = Inr (Single r, h2) \<and>
     - 1 < data (h2 ! r) \<and> data (h2 ! r) < 1"
proof -
  have "2 * (1 + real 3 * 99) \<le> (600::real)" by simp
  from layer_outs_bounded[OF assms(1,7,8) this]
  obtain rs1 g1 where 1: "layer_outs h (neurons l1) (Seq xs) = Inr (rs1, g1)" "prefix h g1"
    "length rs1 = 4" "\<forall>r \<in> set rs1. r < length g1 \<and> \<bar>data (g1 ! r)\<bar> < 1"
    using assms(2) by auto
  have c1: "Layer_call h l1 (Seq xs) = Inr (Seq (map Ref rs1), g1)"
    using 1 by (simp add: Layer_call_def)
  have p2: "\<forall>n \<in> set (neurons l2). params_in_range g1 4 n"
    using assms(3) 1(2) by (auto intro: params_in_range_prefix)
  have b2: "2 * (1 + real 4 * 1) \<le> (600::real)" by simp
  have len1: "length (map Ref rs1) = 4" using 1(3) by simp
  from layer_outs_bounded[OF p2 outputs_in_range[OF 1(4)] len1 b2]
  obtain rs2 g2 where 2: "layer_outs g1 (neurons l2) (Seq (map Ref rs1)) = Inr (rs2, g2)"
    "prefix g1 g2" "length rs2 = 4" "\<forall>r \<in> set rs2. r < length g2 \<and> \<bar>data (g2 ! r)\<bar> < 1"
    using assms(4) by auto
  have c2: "Layer_call g1 l2 (Seq (map Ref rs1)) = Inr (Seq (map Ref rs2), g2)"
    using 2 by (simp add: Layer_call_def)
  have "prefix h g2" using 1(2) 2(2) by (rule prefix_order.trans)
  then have p3: "params_in_range g2 4 n3" using assms(5) by (rule params_in_range_prefix)
  have len2: "length (map Ref rs2) = 4" using 2(3) by simp
  from Neuron_call_bounded[OF p3 outputs_in_range[OF 2(4)] len2 b2]
  obtain r h2 where 3: "Neuron_call g2 n3 (Seq (map Ref rs2)) = Inr (r, h2)"
    "\<bar>data (h2 ! r)\<bar> < 1"
    by blast
  have "MLP_call h \<lparr>layers = [l1, l2, l3]\<rparr> (Seq xs) = Inr (Single r, h2)"
    using c1 c2 3(1) assms(6) by (simp add: MLP_call_def Layer_call_def)
  with 3(2) show ?thesis by (auto simp: abs_less_iff)
qed

text \<open>
  Claim C6, as the code has it. \<^verbatim>\<open>MLP(3, [4,4,1])\<close> is built in any heap from any
  sequence of draws: it has three layers, the last with one neuron, and its
  \<^verbatim>\<open>parameters()\<close> has 41 elements, in the order layer, neuron, weights, bias; this is
  the order in which the constructor made them, 41 fresh leaves holding the draws in
  turn. Called on a list, it raises \<^verbatim>\<open>OverflowError\<close> from the \<^verbatim>\<open>tanh\<close> of a neuron, or
  the first two layers return lists and the call returns one \<^verbatim>\<open>Value\<close>, not a list: the
  node that the sole neuron of the last layer returns on the outputs of the second.
  When the draws have magnitude at most 1, as those of \<^verbatim>\<open>random.uniform(-1,1)\<close> have,
  and the list has three elements of magnitude at most 99, the call does return, and
  the node holds a number strictly between -1 and 1.
\<close>

theorem mlp_3_4_4_1_shape:
  "case MLP_init h u i 3 [4, 4, 1] of (m, h1, j) \<Rightarrow>
     (\<exists>l1 l2 l3 n3. layers m = [l1, l2, l3] \<and> neurons l3 = [n3] \<and>
        (MLP_call h1 m (Seq xs) = Inl OverflowError \<or>
         (\<exists>ys1 g1 ys2 g2 r h2.
            Layer_call h1 l1 (Seq xs) = Inr (Seq ys1, g1) \<and>
            Layer_call g1 l2 (Seq ys1) = Inr (Seq ys2, g2) \<and>
            Neuron_call g2 n3 (Seq ys2) = Inr (r, h2) \<and>
            MLP_call h1 m (Seq xs) = Inr (Single r, h2)))) \<and>
     ((\<forall>k. \<bar>u k\<bar> \<le> 1) \<and> length xs = 3 \<and>
      (\<forall>a \<in> set xs. valid_arg h1 a \<and> \<bar>arg_value h1 a\<bar> \<le> 99) \<longrightarrow>
        (\<exists>r h2. MLP_call h1 m (Seq xs) = Inr (Single r, h2) \<and>
           - 1 < data (h2 ! r) \<and> data (h2 ! r) < 1)) \<and>
     length (MLP_parameters m) = 3 * 4 + 4 + (4 * 4 + 4) + (4 * 1 + 1) \<and>
     length (MLP_parameters m) = 41 \<and>
     MLP_parameters m = concat (map (\<lambda>l. concat (map (\<lambda>n. w n @ [b n]) (neurons l))) (layers m)) \<and>
     MLP_parameters m = [length h..<length h + 41] \<and>
     h1 = h @ map (\<lambda>k. leaf (u k)) [i..<i + 41] \<and> j = i + 41"
proof -
  obtain ls h1 j where r: "new_layers h u i [3, 4, 4, 1] [0, 1, 2] = (ls, h1, j)"
    by (cases "new_layers h u i [3, 4, 4, 1] [0, 1, 2]")
  have p: "layer_params [3, 4, 4, 1] [0, 1, 2] = 41" by (simp add: layer_params_def)
  note f = new_layers_facts[OF r, unfolded p]
  have u: "[0..<3] = [0, 1, 2]" by (simp add: upt_rec)
  have m: "MLP_init h u i 3 [4, 4, 1] = (\<lparr>layers = ls\<rparr>, h1, j)"
    using r by (simp add: MLP_init_def u)
  from mlp_3_4_4_1_layers[OF r]
  obtain l1 l2 l3 n3 where ls: "ls = [l1, l2, l3]" "length (neurons l1) = 4"
    "length (neurons l2) = 4" "neurons l3 = [n3]" "\<forall>n \<in> set (neurons l1). length (w n) = 3"
    "\<forall>n \<in> set (neurons l2). length (w n) = 4" "length (w n3) = 4"
    by blast
  have chain: "\<exists>l1 l2 l3 n3. layers \<lparr>layers = ls\<rparr> = [l1, l2, l3] \<and> neurons l3 = [n3] \<and>
        (MLP_call h1 \<lparr>layers = ls\<rparr> (Seq xs) = Inl OverflowError \<or>
         (\<exists>ys1 g1 ys2 g2 r h2.
            Layer_call h1 l1 (Seq xs) = Inr (Seq ys1, g1) \<and>
            Layer_call g1 l2 (Seq ys1) = Inr (Seq ys2, g2) \<and>
            Neuron_call g2 n3 (Seq ys2) = Inr (r, h2) \<and>
            MLP_call h1 \<lparr>layers = ls\<rparr> (Seq xs) = Inr (Single r, h2)))"
    using mlp_call_chain[OF ls(2,3,4), of h1 xs] ls(1,4) by auto
  have ret: "\<exists>r h2. MLP_call h1 \<lparr>layers = ls\<rparr> (Seq xs) = Inr (Single r, h2) \<and>
      - 1 < data (h2 ! r) \<and> data (h2 ! r) < 1"
    if ub: "\<forall>k. \<bar>u k\<bar> \<le> 1" and len: "length xs = 3"
      and args: "\<forall>a \<in> set xs. valid_arg h1 a \<and> \<bar>arg_value h1 a\<bar> \<le> 99"
  proof -
    have pr: "params_in_range h1 (length (w n)) n" if "l \<in> set ls" "n \<in> set (neurons l)" for l n
      using new_layers_params_in_range[OF r ub that] .
    have 1: "\<forall>n \<in> set (neurons l1). params_in_range h1 3 n" using pr[of l1] ls(1,5) by auto
    have 2: "\<forall>n \<in> set (neurons l2). params_in_range h1 4 n" using pr[of l2] ls(1,6) by auto
    have 3: "params_in_range h1 4 n3" using pr[of l3 n3] ls(1,4,7) by auto
    have 4: "args_in_range h1 99 xs" using args by (simp add: args_in_range_def)
    from mlp_call_bounded[OF 1 ls(2) 2 ls(3) 3 ls(4) 4 len] show ?thesis unfolding ls(1) .
  qed
  have par: "MLP_parameters \<lparr>layers = ls\<rparr> = [length h..<length h + 41]"
    using f by (simp add: MLP_parameters_def)
  have ord: "MLP_parameters \<lparr>layers = ls\<rparr> =
      concat (map (\<lambda>l. concat (map (\<lambda>n. w n @ [b n]) (neurons l))) (layers \<lparr>layers = ls\<rparr>))"
    by (simp add: MLP_parameters_def Layer_parameters_def Neuron_parameters_def cong: map_cong)
  show ?thesis unfolding m using chain ret par ord f by simp
qed

theorem mlp_3_4_4_1_shape_witness:
  "(\<forall>k. \<bar>half_draws k\<bar> \<le> 1) \<and> length [Num 2, Num 3, Num (- 1)] = 3 \<and>
   (case MLP_init [] half_draws 0 3 [4, 4, 1] of (m, h1, j) \<Rightarrow>
      list_all (\<lambda>a. valid_arg h1 a \<and> \<bar>arg_value h1 a\<bar> \<le> 99) [Num 2, Num 3, Num (- 1)] \<and>
      (\<exists>r h2. MLP_call h1 m (Seq [Num 2, Num 3, Num (- 1)]) = Inr (Single r, h2) \<and>
         - 1 < data (h2 ! r) \<and> data (h2 ! r) < 1) \<and>
      length (MLP_parameters m) = 41 \<and> MLP_parameters m = [0..<41])"
  using mlp_3_4_4_1_shape [where h = "[]" and u = half_draws and i = 0
      and xs = "[Num 2, Num 3, Num (- 1)]"]
  by (auto simp: valid_arg_def arg_value_def half_draws_def split: prod.splits)

text \<open>
  Claim C6 as written fails at a three-element input: with every draw 0.5, the first
  neuron of \<^verbatim>\<open>MLP(3, [4,4,1])\<close> called on \<^verbatim>\<open>[1000.0, 1000.0, 1000.0]\<close> has the sum
  1500.5, \<^verbatim>\<open>math.exp(3001.0)\<close> raises \<^verbatim>\<open>OverflowError\<close>, and the call returns nothing.
\<close>

theorem mlp_overflow_counterexample:
  "MLP_call (fst (snd (MLP_init [] half_draws 0 3 [4, 4, 1])))
     (fst (MLP_init [] half_draws 0 3 [4, 4, 1])) (Seq [Num 1000, Num 1000, Num 1000]) =
   Inl OverflowError"
proof -
  have e: "float_inf \<le> exp 3001" by (rule exp_overflows) simp
  show ?thesis
    using e
    by (simp add: MLP_init_def Layer_init_def Neuron_init_def Value_init_def MLP_call_def
        Layer_call_def Neuron_call_def Value_mul_def Value_add_def promote_def Value_tanh_def
        math_exp_def leaf_def half_draws_def upt_rec eval_nat_numeral)
qed

section \<open>Properties of the backward pass\<close>

lemma reach_refl: "r \<in> reach h r"
  by (simp add: reach_def)

lemma reach_step: "m \<in> reach h r \<Longrightarrow> c \<in> set (prev (h ! m)) \<Longrightarrow> c \<in> reach h r"
  by (auto simp: reach_def intro: rtrancl_into_rtrancl)

lemma reach_child: "c \<in> set (prev (h ! v)) \<Longrightarrow> reach h c \<subseteq> reach h v"
  by (auto simp: reach_def intro: converse_rtrancl_into_rtrancl)

lemma reach_closed:
  assumes "r \<in> S" "\<And>m c. m \<in> S \<Longrightarrow> c \<in> set (prev (h ! m)) \<Longrightarrow> c \<in> S"
  shows "reach h r \<subseteq> S"
proof
  fix n assume "n \<in> reach h r"
  then have "(r, n) \<in> {(m, c). c \<in> set (prev (h ! m))}\<^sup>*" by (simp add: reach_def)
  then show "n \<in> S"
    by (induction rule: rtrancl_induct) (use assms in auto)
qed

lemma reach_le:
  assumes "acyclic_heap h" "r < length h"
  shows "reach h r \<subseteq> {..r}"
proof (rule reach_closed)
  show "r \<in> {..r}" by simp
next
  fix m c assume "m \<in> {..r}" "c \<in> set (prev (h ! m))"
  then show "c \<in> {..r}" using assms by (force simp: acyclic_heap_def)
qed

lemma operands_first_append:
  assumes "operands_first h (topo @ new)"
  shows "operands_first h topo"
  unfolding operands_first_def
proof
  fix i assume "i \<in> {..<length topo}"
  then have i: "i < length topo" by simp
  then have "i \<in> {..<length (topo @ new)}" by simp
  with assms have "set (prev (h ! ((topo @ new) ! i))) \<subseteq> set (take i (topo @ new))"
    unfolding operands_first_def by blast
  with i show "set (prev (h ! (topo ! i))) \<subseteq> set (take i topo)"
    by (simp add: nth_append)
qed

lemma operands_first_snoc:
  "operands_first h topo \<Longrightarrow> set (prev (h ! v)) \<subseteq> set topo \<Longrightarrow> operands_first h (topo @ [v])"
  by (auto simp: operands_first_def nth_append less_Suc_eq)

lemma operands_first_closed:
  "operands_first h topo \<Longrightarrow> m \<in> set topo \<Longrightarrow> c \<in> set (prev (h ! m)) \<Longrightarrow> c \<in> set topo"
  by (fastforce simp: operands_first_def in_set_conv_nth dest: in_set_takeD)


lemma dfs_invariant:
  assumes ac: "acyclic_heap h"
  shows "v < length h \<Longrightarrow> v < n \<Longrightarrow> set topo \<subseteq> visited \<Longrightarrow> distinct topo \<Longrightarrow>
      operands_first h topo \<Longrightarrow> (\<forall>x \<in> visited. x \<notin> set topo \<longrightarrow> v < x) \<Longrightarrow>
      \<exists>new. build_topo n h v (topo, visited) = Some (topo @ new, visited \<union> set new) \<and>
        distinct (topo @ new) \<and> operands_first h (topo @ new) \<and> v \<in> set (topo @ new) \<and>
        set new \<subseteq> reach h v \<and> (\<forall>x \<in> set new. x \<le> v)"
    and "\<forall>p. (\<forall>c \<in> set cs. c < n \<and> c < length h \<and> c < p) \<longrightarrow> set (fst st) \<subseteq> snd st \<longrightarrow> distinct (fst st) \<longrightarrow>
      operands_first h (fst st) \<longrightarrow> (\<forall>x \<in> snd st. x \<notin> set (fst st) \<longrightarrow> p \<le> x) \<longrightarrow>
      (\<exists>new. build_children n h cs st = Some (fst st @ new, snd st \<union> set new) \<and>
        distinct (fst st @ new) \<and> operands_first h (fst st @ new) \<and> set cs \<subseteq> set (fst st @ new) \<and>
        set new \<subseteq> (\<Union>c \<in> set cs. reach h c) \<and> (\<forall>x \<in> set new. x < p))"
  using ac
proof (induction n h v "(topo, visited)" and n h cs st arbitrary: topo visited rule: build_topo_build_children.induct)
  case (1 h v)
  then show ?case by simp
next
  case (2 n h v topo visited)
  note ac = \<open>acyclic_heap h\<close>
  note vl = \<open>v < length h\<close> and vn = \<open>v < Suc n\<close> and sub = \<open>set topo \<subseteq> visited\<close>
    and d = \<open>distinct topo\<close> and o = \<open>operands_first h topo\<close>
    and inv = \<open>\<forall>x \<in> visited. x \<notin> set topo \<longrightarrow> v < x\<close>
  show ?case
  proof (cases "v \<in> visited")
    case True
    with inv have "v \<in> set topo" by auto
    with True d o show ?thesis by (intro exI[of _ "[]"]) simp
  next
    case False
    have cs: "\<forall>c \<in> set (prev (h ! v)). c < n \<and> c < length h \<and> c < v"
    proof
      fix c assume "c \<in> set (prev (h ! v))"
      with ac vl have "c < v" by (auto simp: acyclic_heap_def)
      with vl vn show "c < n \<and> c < length h \<and> c < v" by simp
    qed
    have inv': "\<forall>x \<in> snd (topo, insert v visited). x \<notin> set (fst (topo, insert v visited)) \<longrightarrow> v \<le> x"
      using inv by auto
    have sub': "set (fst (topo, insert v visited)) \<subseteq> snd (topo, insert v visited)"
      using sub by auto
    have "\<exists>new. build_children n h (prev (h ! v)) (topo, insert v visited) =
          Some (fst (topo, insert v visited) @ new, snd (topo, insert v visited) \<union> set new) \<and>
        distinct (fst (topo, insert v visited) @ new) \<and>
        operands_first h (fst (topo, insert v visited) @ new) \<and>
        set (prev (h ! v)) \<subseteq> set (fst (topo, insert v visited) @ new) \<and>
        set new \<subseteq> (\<Union>c \<in> set (prev (h ! v)). reach h c) \<and> (\<forall>x \<in> set new. x < v)"
      using "2.hyps"[OF False ac, rule_format, of v] cs sub' d o inv' by simp
    then obtain new where new: "build_children n h (prev (h ! v)) (topo, insert v visited) =
          Some (topo @ new, insert v visited \<union> set new)"
      "distinct (topo @ new)" "operands_first h (topo @ new)"
      "set (prev (h ! v)) \<subseteq> set (topo @ new)"
      "set new \<subseteq> (\<Union>c \<in> set (prev (h ! v)). reach h c)" "\<forall>x \<in> set new. x < v"
      by auto
    have vt: "v \<notin> set topo" using False sub by auto
    have vn: "v \<notin> set new" using new(6) by auto
    have r: "set (new @ [v]) \<subseteq> reach h v" using new(5) reach_child[of _ h v] reach_refl[of v h] by auto
    have e: "build_topo (Suc n) h v (topo, visited) = Some (topo @ (new @ [v]), visited \<union> set (new @ [v]))"
      using False new(1) by simp
    have dd: "distinct (topo @ (new @ [v]))" using new(2) vt vn by simp
    have oo: "operands_first h (topo @ (new @ [v]))"
      using operands_first_snoc[OF new(3,4)] by simp
    have le: "\<forall>x \<in> set (new @ [v]). x \<le> v" using new(6) by auto
    have "v \<in> set (topo @ (new @ [v]))" by simp
    with e dd oo r le show ?thesis by blast
  qed
next
  case (3 n h st)
  then show ?case by simp
next
  case (4 n h c cs st)
  note ac = \<open>acyclic_heap h\<close>
  show ?case
  proof (intro allI impI)
    fix p
    assume cs: "\<forall>c \<in> set (c # cs). c < n \<and> c < length h \<and> c < p"
      and sub: "set (fst st) \<subseteq> snd st" and d: "distinct (fst st)"
      and o: "operands_first h (fst st)" and inv: "\<forall>x \<in> snd st. x \<notin> set (fst st) \<longrightarrow> p \<le> x"
    obtain topo visited where st: "st = (topo, visited)" by (cases st)
    have c: "c < n" "c < length h" "c < p" using cs by auto
    have inv1: "\<forall>x \<in> visited. x \<notin> set topo \<longrightarrow> c < x" using inv c(3) st by fastforce
    have "\<exists>new. build_topo n h c (topo, visited) = Some (topo @ new, visited \<union> set new) \<and>
        distinct (topo @ new) \<and> operands_first h (topo @ new) \<and> c \<in> set (topo @ new) \<and>
        set new \<subseteq> reach h c \<and> (\<forall>x \<in> set new. x \<le> c)"
      using "4.hyps"(1)[OF st c(2,1) _ _ _ inv1 ac] sub d o st by simp
    then obtain new1 where n1: "build_topo n h c (topo, visited) = Some (topo @ new1, visited \<union> set new1)"
      "distinct (topo @ new1)" "operands_first h (topo @ new1)" "c \<in> set (topo @ new1)"
      "set new1 \<subseteq> reach h c" "\<forall>x \<in> set new1. x \<le> c"
      by blast
    let ?st1 = "(topo @ new1, visited \<union> set new1)"
    have inv2: "\<forall>x \<in> snd ?st1. x \<notin> set (fst ?st1) \<longrightarrow> p \<le> x"
      using inv st by auto
    have sub2: "set (fst ?st1) \<subseteq> snd ?st1" using sub st by auto
    have cs2: "\<forall>c \<in> set cs. c < n \<and> c < length h \<and> c < p" using cs by simp
    have "\<exists>new. build_children n h cs ?st1 = Some (fst ?st1 @ new, snd ?st1 \<union> set new) \<and>
        distinct (fst ?st1 @ new) \<and> operands_first h (fst ?st1 @ new) \<and> set cs \<subseteq> set (fst ?st1 @ new) \<and>
        set new \<subseteq> (\<Union>c \<in> set cs. reach h c) \<and> (\<forall>x \<in> set new. x < p)"
      using "4.hyps"(2)[OF n1(1)[folded st] ac, rule_format, of p] cs2 sub2 n1(2,3) inv2 by simp
    then obtain new2 where n2: "build_children n h cs ?st1 =
        Some (topo @ new1 @ new2, visited \<union> set (new1 @ new2))"
      "distinct (topo @ new1 @ new2)" "operands_first h (topo @ new1 @ new2)"
      "set cs \<subseteq> set (topo @ new1 @ new2)"
      "set new2 \<subseteq> (\<Union>c \<in> set cs. reach h c)" "\<forall>x \<in> set new2. x < p"
      by (auto simp: Un_assoc)
    have lt: "\<forall>x \<in> set (new1 @ new2). x < p" using n1(6) n2(6) c(3) by fastforce
    have e: "build_children n h (c # cs) st = Some (fst st @ (new1 @ new2), snd st \<union> set (new1 @ new2))"
      using st n1(1) n2(1) by simp
    have in1: "set (c # cs) \<subseteq> set (fst st @ (new1 @ new2))" using n1(4) n2(4) st by auto
    have r: "set (new1 @ new2) \<subseteq> (\<Union>c \<in> set (c # cs). reach h c)" using n1(5) n2(5) by auto
    from e n2(2,3) in1 r lt st
    show "\<exists>new. build_children n h (c # cs) st = Some (fst st @ new, snd st \<union> set new) \<and>
        distinct (fst st @ new) \<and> operands_first h (fst st @ new) \<and> set (c # cs) \<subseteq> set (fst st @ new) \<and>
        set new \<subseteq> (\<Union>c \<in> set (c # cs). reach h c) \<and> (\<forall>x \<in> set new. x < p)"
      by (intro exI[of _ "new1 @ new2"]) simp
  qed
qed


lemma in_take_nth: "c \<in> set (take i xs) \<Longrightarrow> \<exists>j<i. xs ! j = c"
  by (auto simp: in_set_conv_nth)

lemma build_topo_result:
  assumes "acyclic_heap h" "r < length h"
  shows "\<exists>topo. build_topo (Suc (length h)) h r ([], {}) = Some (topo, set topo) \<and>
     distinct topo \<and> set topo = reach h r \<and> operands_first h topo"
proof -
  have "\<exists>new. build_topo (Suc (length h)) h r ([], {}) = Some ([] @ new, {} \<union> set new) \<and>
        distinct ([] @ new) \<and> operands_first h ([] @ new) \<and> r \<in> set ([] @ new) \<and>
        set new \<subseteq> reach h r \<and> (\<forall>x \<in> set new. x \<le> r)"
    using assms by (intro dfs_invariant(1)) (simp_all add: operands_first_def)
  then obtain topo where t: "build_topo (Suc (length h)) h r ([], {}) = Some (topo, set topo)"
    "distinct topo" "operands_first h topo" "r \<in> set topo" "set topo \<subseteq> reach h r"
    by auto
  have "reach h r \<subseteq> set topo"
    using t(4) operands_first_closed[OF t(3)] by (rule reach_closed)
  with t(5) have eq: "set topo = reach h r" by auto
  with t(1,2,3) show ?thesis by blast
qed

text \<open>
  Claim C2: in a heap where every node was made after its operands, \<open>build_topo\<close>
  called from \<^verbatim>\<open>backward\<close> on a node \<open>r\<close> returns, and the list it returns holds
  every node reachable from \<open>r\<close> exactly once, each after all of its operands.
\<close>

theorem build_topo_topological:
  assumes "acyclic_heap h" "r < length h"
  shows "\<exists>topo visited. build_topo (Suc (length h)) h r ([], {}) = Some (topo, visited) \<and>
     distinct topo \<and> set topo = reach h r \<and>
     (\<forall>i \<in> {..<length topo}. \<forall>c \<in> set (prev (h ! (topo ! i))). \<exists>j<i. topo ! j = c)"
proof -
  from build_topo_result[OF assms] obtain topo where
    t: "build_topo (Suc (length h)) h r ([], {}) = Some (topo, set topo)"
      "distinct topo" "set topo = reach h r" "operands_first h topo"
    by blast
  have "\<forall>i \<in> {..<length topo}. \<forall>c \<in> set (prev (h ! (topo ! i))). \<exists>j<i. topo ! j = c"
    using t(4) unfolding operands_first_def by (blast intro: in_take_nth)
  with t(1,2,3) show ?thesis by blast
qed

lemma same_graph_refl: "same_graph h h"
  by (simp add: same_graph_def)

lemma same_graph_trans: "same_graph h h1 \<Longrightarrow> same_graph h1 h2 \<Longrightarrow> same_graph h h2"
  by (simp add: same_graph_def)

lemma same_graph_add_grad: "same_graph h (add_grad h n d)"
  by (cases "n < length h") (auto simp: same_graph_def add_grad_def nth_list_update)

lemma grad_add_grad:
  "k < length h \<Longrightarrow> grad (add_grad h n d ! k) = (if k = n then grad (h ! k) + d else grad (h ! k))"
  by (simp add: add_grad_def nth_list_update)

lemma wf_operands: "wf_heap h \<Longrightarrow> m < length h \<Longrightarrow> c \<in> set (operands (closure (h ! m))) \<Longrightarrow> c < m"
  by (auto simp: wf_heap_def)

lemma wf_acyclic: "wf_heap h \<Longrightarrow> acyclic_heap h"
  by (simp add: wf_heap_def acyclic_heap_def)

lemma local_grad_zero: "n \<notin> set (operands (closure (h ! m))) \<Longrightarrow> local_grad h m n = 0"
  by (cases "closure (h ! m)") (auto simp: local_grad_def)

lemma same_graph_local_grad:
  assumes "same_graph h h'" "wf_heap h" "m < length h"
  shows "local_grad h' m n = local_grad h m n"
proof (cases "closure (h ! m)")
  case (MulBw s t)
  with assms(2,3) have "s < m" "t < m" by (auto dest: wf_operands)
  with assms(3) have "s < length h" "t < length h" by auto
  with assms(1,3) MulBw show ?thesis by (simp add: local_grad_def same_graph_def)
next
  case (PowBw s k)
  with assms(2,3) have "s < m" by (auto dest: wf_operands)
  with assms(3) have "s < length h" by auto
  with assms(1,3) PowBw show ?thesis by (simp add: local_grad_def same_graph_def)
qed (use assms in \<open>simp_all add: local_grad_def same_graph_def\<close>)

lemma same_graph_wf: "same_graph h h' \<Longrightarrow> wf_heap h \<Longrightarrow> wf_heap h'"
  by (simp add: same_graph_def wf_heap_def)

lemma same_graph_consumers_first:
  "same_graph h h' \<Longrightarrow> set ms \<subseteq> {..<length h} \<Longrightarrow> consumers_first h ms \<Longrightarrow> consumers_first h' ms"
  by (induction ms) (auto simp: same_graph_def)

lemma run_backward_effect:
  assumes wf: "wf_heap h" and m: "m < length h" and run: "run_backward h m = Inr h'"
  shows "same_graph h h'"
    and "\<forall>n \<in> {..<length h}. grad (h' ! n) = grad (h ! n) + local_grad h m n * grad (h ! m)"
proof -
  have lt: "\<And>c. c \<in> set (operands (closure (h ! m))) \<Longrightarrow> c < m \<and> c < length h"
    using wf_operands[OF wf m] m by fastforce
  show "same_graph h h'"
    using run
    by (cases "closure (h ! m)")
      (auto simp: run_backward_def Let_def split: sum.splits pynum.splits
        intro: same_graph_refl same_graph_add_grad same_graph_trans[OF same_graph_add_grad same_graph_add_grad])
  show "\<forall>n \<in> {..<length h}. grad (h' ! n) = grad (h ! n) + local_grad h m n * grad (h ! m)"
  proof (cases "closure (h ! m)")
    case NoOp
    with run show ?thesis by (simp add: run_backward_def local_grad_def)
  next
    case (AddBw s t)
    with lt have "s < m" "t < m" "s < length h" "t < length h" by auto
    with run AddBw m show ?thesis
      by (auto simp: run_backward_def local_grad_def Let_def add_grad_def nth_list_update)
  next
    case (MulBw s t)
    with lt have "s < m" "t < m" "s < length h" "t < length h" by auto
    with run MulBw m show ?thesis
      by (auto simp: run_backward_def local_grad_def Let_def add_grad_def nth_list_update algebra_simps)
  next
    case (PowBw s k)
    with lt have "s < m" "s < length h" by auto
    with run PowBw m show ?thesis
      by (auto simp: run_backward_def local_grad_def Let_def add_grad_def nth_list_update
          split: sum.splits pynum.splits dest!: pypow_PyFloatD(1))
  next
    case (TanhBw s t)
    with lt have "s < m" "s < length h" by auto
    with run TanhBw m show ?thesis
      by (auto simp: run_backward_def local_grad_def Let_def add_grad_def nth_list_update)
  next
    case (ExpBw s)
    with lt have "s < m" "s < length h" by auto
    with run ExpBw m show ?thesis
      by (auto simp: run_backward_def local_grad_def Let_def add_grad_def nth_list_update)
  qed
qed


lemma sum_list_zero: "(\<And>x. x \<in> set xs \<Longrightarrow> f x = (0::real)) \<Longrightarrow> (\<Sum>x\<leftarrow>xs. f x) = 0"
  by (induction xs) auto

lemma replay_effect:
  assumes "wf_heap h" "set ms \<subseteq> {..<length h}" "distinct ms" "consumers_first h ms"
    "replay h ms = Inr h'"
  shows "same_graph h h' \<and>
     (\<forall>n \<in> {..<length h}. grad (h' ! n) = grad (h ! n) + (\<Sum>m\<leftarrow>ms. local_grad h m n * grad (h' ! m)))"
  using assms
proof (induction ms arbitrary: h)
  case Nil
  then show ?case by (simp add: same_graph_refl)
next
  case (Cons m ms)
  note wf = \<open>wf_heap h\<close>
  have m: "m < length h" using Cons.prems(2) by simp
  obtain h1 where run: "run_backward h m = Inr h1" and rest: "replay h1 ms = Inr h'"
    using Cons.prems(5) by (auto split: sum.splits pynum.splits)
  note e = run_backward_effect[OF wf m run]
  have len: "length h1 = length h" using e(1) by (simp add: same_graph_def)
  have wf1: "wf_heap h1" using e(1) wf by (rule same_graph_wf)
  have sub: "set ms \<subseteq> {..<length h}" using Cons.prems(2) by simp
  have cf: "consumers_first h1 ms"
    using e(1) sub Cons.prems(4) by (auto intro: same_graph_consumers_first)
  have ih: "same_graph h1 h'"
    "\<forall>n \<in> {..<length h1}. grad (h' ! n) = grad (h1 ! n) + (\<Sum>m'\<leftarrow>ms. local_grad h1 m' n * grad (h' ! m'))"
    using Cons.IH[OF wf1 _ _ cf rest] sub len Cons.prems(3) by auto
  have lg: "\<And>m' n. m' \<in> set ms \<Longrightarrow> local_grad h1 m' n = local_grad h m' n"
    using same_graph_local_grad[OF e(1) wf] sub by auto
  have ih': "\<forall>n \<in> {..<length h}. grad (h' ! n) = grad (h1 ! n) + (\<Sum>m'\<leftarrow>ms. local_grad h m' n * grad (h' ! m'))"
  proof
    fix n assume n: "n \<in> {..<length h}"
    have "(\<Sum>m'\<leftarrow>ms. local_grad h1 m' n * grad (h' ! m')) = (\<Sum>m'\<leftarrow>ms. local_grad h m' n * grad (h' ! m'))"
      by (intro arg_cong[where f = sum_list] map_cong refl) (simp add: lg)
    with ih(2) n len show "grad (h' ! n) = grad (h1 ! n) + (\<Sum>m'\<leftarrow>ms. local_grad h m' n * grad (h' ! m'))"
      by simp
  qed
  have zero: "\<And>m'. m' \<in> set ms \<Longrightarrow> local_grad h m' m = 0"
  proof -
    fix m' assume m': "m' \<in> set ms"
    then have "m \<notin> set (prev (h ! m'))" using Cons.prems(4) by simp
    moreover have "m' < length h" using m' sub by auto
    ultimately have "m \<notin> set (operands (closure (h ! m')))" using wf by (auto simp: wf_heap_def)
    then show "local_grad h m' m = 0" by (rule local_grad_zero)
  qed
  have self: "local_grad h m m = 0"
    using wf_operands[OF wf m, of m] by (intro local_grad_zero) auto
  have "grad (h' ! m) = grad (h1 ! m) + (\<Sum>m'\<leftarrow>ms. local_grad h m' m * grad (h' ! m'))"
    using ih' m by simp
  also have "(\<Sum>m'\<leftarrow>ms. local_grad h m' m * grad (h' ! m')) = 0"
    by (rule sum_list_zero) (simp add: zero)
  also have "grad (h1 ! m) = grad (h ! m)" using e(2) m self by simp
  finally have gm: "grad (h' ! m) = grad (h ! m)" by simp
  have "same_graph h h'" using e(1) ih(1) by (rule same_graph_trans)
  moreover have "\<forall>n \<in> {..<length h}. grad (h' ! n) =
      grad (h ! n) + (\<Sum>m'\<leftarrow>m # ms. local_grad h m' n * grad (h' ! m'))"
    using ih' e(2) gm by (simp add: algebra_simps)
  ultimately show ?case by blast
qed

lemma operands_first_consumers_first:
  "operands_first h topo \<Longrightarrow> distinct topo \<Longrightarrow> consumers_first h (rev topo)"
proof (induction topo rule: rev_induct)
  case Nil
  then show ?case by simp
next
  case (snoc v topo)
  have o: "operands_first h topo" using snoc.prems(1) by (rule operands_first_append)
  have "\<forall>m' \<in> set topo. v \<notin> set (prev (h ! m'))"
    using operands_first_closed[OF o] snoc.prems(2) by auto
  with snoc.IH[OF o] snoc.prems(2) show ?case by simp
qed

lemma reach_same_prev:
  assumes "\<And>k. prev (h' ! k) = prev (h ! k)"
  shows "reach h' r = reach h r"
  by (simp add: reach_def assms)

lemma backward_effect:
  assumes wf: "wf_heap h" and r: "r < length h" and bw: "Value_backward h r = Some (Inr h')"
  shows "same_graph h h'"
    and "grad (h' ! r) = 1"
    and "\<forall>n \<in> {..<length h}. n \<notin> reach h r \<longrightarrow> grad (h' ! n) = grad (h ! n)"
    and "\<forall>n \<in> reach h r. n \<noteq> r \<longrightarrow>
           grad (h' ! n) = grad (h ! n) + (\<Sum>m \<in> reach h r. local_grad h m n * grad (h' ! m))"
proof -
  from build_topo_result[OF wf_acyclic[OF wf] r] obtain topo where
    t: "build_topo (Suc (length h)) h r ([], {}) = Some (topo, set topo)"
      "distinct topo" "set topo = reach h r" "operands_first h topo"
    by blast
  define h1 where "h1 = h[r := (h ! r)\<lparr>grad := 1\<rparr>]"
  have rp: "replay h1 (rev topo) = Inr h'" using bw t(1) by (simp add: Value_backward_def h1_def)
  have sg1: "same_graph h h1" using r by (auto simp: same_graph_def h1_def nth_list_update)
  have g1: "\<And>n. n < length h \<Longrightarrow> grad (h1 ! n) = (if n = r then 1 else grad (h ! n))"
    using r by (simp add: h1_def nth_list_update)
  have len1: "length h1 = length h" by (simp add: h1_def)
  have wf1: "wf_heap h1" using sg1 wf by (rule same_graph_wf)
  have le: "reach h r \<subseteq> {..r}" using wf_acyclic[OF wf] r by (rule reach_le)
  then have sub: "set (rev topo) \<subseteq> {..<length h}" using t(3) r by auto
  have cf: "consumers_first h (rev topo)" using t(4,2) by (rule operands_first_consumers_first)
  have cf1: "consumers_first h1 (rev topo)" using sg1 sub cf by (rule same_graph_consumers_first)
  have e: "same_graph h1 h'"
    "\<forall>n \<in> {..<length h1}. grad (h' ! n) = grad (h1 ! n) + (\<Sum>m\<leftarrow>rev topo. local_grad h1 m n * grad (h' ! m))"
    using replay_effect[OF wf1 _ _ cf1 rp] sub len1 t(2) by auto
  have sums: "\<And>n. (\<Sum>m\<leftarrow>rev topo. local_grad h1 m n * grad (h' ! m)) =
      (\<Sum>m \<in> reach h r. local_grad h m n * grad (h' ! m))"
  proof -
    fix n
    have "(\<Sum>m\<leftarrow>rev topo. local_grad h1 m n * grad (h' ! m)) =
        (\<Sum>m \<in> set (rev topo). local_grad h1 m n * grad (h' ! m))"
      using t(2) by (intro sum_list_distinct_conv_sum_set) simp
    also have "\<dots> = (\<Sum>m \<in> reach h r. local_grad h1 m n * grad (h' ! m))" using t(3) by simp
    also have "\<dots> = (\<Sum>m \<in> reach h r. local_grad h m n * grad (h' ! m))"
    proof (rule sum.cong[OF refl])
      fix m assume "m \<in> reach h r"
      then have "m < length h" using le r by auto
      then show "local_grad h1 m n * grad (h' ! m) = local_grad h m n * grad (h' ! m)"
        using same_graph_local_grad[OF sg1 wf] by simp
    qed
    finally show "(\<Sum>m\<leftarrow>rev topo. local_grad h1 m n * grad (h' ! m)) =
      (\<Sum>m \<in> reach h r. local_grad h m n * grad (h' ! m))" .
  qed
  have fin: "\<forall>n \<in> {..<length h}. grad (h' ! n) =
      (if n = r then 1 else grad (h ! n)) + (\<Sum>m \<in> reach h r. local_grad h m n * grad (h' ! m))"
    using e(2) sums g1 len1 by simp
  show "same_graph h h'" using sg1 e(1) by (rule same_graph_trans)
  have ops: "\<And>m c. m \<in> reach h r \<Longrightarrow> c \<in> set (operands (closure (h ! m))) \<Longrightarrow> c < m \<and> c \<in> reach h r"
  proof -
    fix m c assume m: "m \<in> reach h r" and c: "c \<in> set (operands (closure (h ! m)))"
    have ml: "m < length h" using m le r by auto
    then have "c \<in> set (prev (h ! m))" using wf c by (auto simp: wf_heap_def)
    with m have "c \<in> reach h r" by (rule reach_step)
    with wf_operands[OF wf ml c] show "c < m \<and> c \<in> reach h r" by simp
  qed
  have "(\<Sum>m \<in> reach h r. local_grad h m r * grad (h' ! m)) = 0"
  proof (rule sum.neutral, rule ballI)
    fix m assume m: "m \<in> reach h r"
    then have "m \<le> r" using le by auto
    with ops[OF m] have "r \<notin> set (operands (closure (h ! m)))" by force
    then show "local_grad h m r * grad (h' ! m) = 0" by (simp add: local_grad_zero)
  qed
  with fin r show "grad (h' ! r) = 1" by simp
  show "\<forall>n \<in> {..<length h}. n \<notin> reach h r \<longrightarrow> grad (h' ! n) = grad (h ! n)"
  proof (intro ballI impI)
    fix n assume n: "n \<in> {..<length h}" "n \<notin> reach h r"
    have "(\<Sum>m \<in> reach h r. local_grad h m n * grad (h' ! m)) = 0"
    proof (rule sum.neutral, rule ballI)
      fix m assume m: "m \<in> reach h r"
      with ops[OF m] n(2) have "n \<notin> set (operands (closure (h ! m)))" by blast
      then show "local_grad h m n * grad (h' ! m) = 0" by (simp add: local_grad_zero)
    qed
    moreover have "n \<noteq> r" using n(2) reach_refl[of r h] by auto
    ultimately show "grad (h' ! n) = grad (h ! n)" using fin n(1) by simp
  qed
  show "\<forall>n \<in> reach h r. n \<noteq> r \<longrightarrow>
           grad (h' ! n) = grad (h ! n) + (\<Sum>m \<in> reach h r. local_grad h m n * grad (h' ! m))"
    using fin le r by auto
qed


lemma demo_wf: "wf_heap demo_heap"
  by (simp add: wf_heap_def demo_heap_def lessThan_Suc numeral_eq_Suc)

lemma demo_topo: "build_topo (Suc (length demo_heap)) demo_heap 3 ([], {}) = Some ([0, 1, 2, 3], {0, 1, 2, 3})"
  by (auto simp: demo_heap_def numeral_eq_Suc)

lemma demo_backward: "Value_backward demo_heap 3 = Some (Inr demo_after)"
  by (simp add: Value_backward_def demo_topo)
    (simp add: demo_heap_def demo_after_def run_backward_def add_grad_def numeral_eq_Suc)

theorem build_topo_topological_witness:
  "acyclic_heap demo_heap \<and> 3 < length demo_heap \<and>
   (\<exists>topo visited. build_topo (Suc (length demo_heap)) demo_heap 3 ([], {}) = Some (topo, visited) \<and>
     distinct topo \<and> set topo = reach demo_heap 3 \<and>
     (\<forall>i \<in> {..<length topo}. \<forall>c \<in> set (prev (demo_heap ! (topo ! i))). \<exists>j<i. topo ! j = c))"
proof -
  have 1: "acyclic_heap demo_heap" using demo_wf by (rule wf_acyclic)
  have 2: "3 < length demo_heap" by (simp add: demo_heap_def)
  from build_topo_topological[OF 1 2] 1 2 show ?thesis by blast
qed

lemma wf_heap_snoc:
  assumes "wf_heap h" "\<forall>c \<in> set (prev v). c < length h" "distinct (prev v)"
    "set (prev v) = set (operands (closure v))"
  shows "wf_heap (h @ [v])"
  using assms by (auto simp: wf_heap_def nth_append less_Suc_eq)

lemma run_backward_succeeds:
  assumes "\<forall>s e. closure (h ! m) = PowBw s e \<longrightarrow> (\<exists>z. pypow (data (h ! s)) (e - 1) = Inr (PyFloat z))"
  shows "\<exists>h1. run_backward h m = Inr h1"
  using assms by (cases "closure (h ! m)") (auto simp: run_backward_def Let_def)

lemma replay_succeeds:
  assumes "wf_heap h" "set ms \<subseteq> {..<length h}"
    "\<forall>m \<in> set ms. \<forall>s e. closure (h ! m) = PowBw s e \<longrightarrow> (\<exists>z. pypow (data (h ! s)) (e - 1) = Inr (PyFloat z))"
  shows "\<exists>h'. replay h ms = Inr h'"
  using assms
proof (induction ms arbitrary: h)
  case Nil
  then show ?case by simp
next
  case (Cons m ms)
  note wf = \<open>wf_heap h\<close>
  have m: "m < length h" using Cons.prems(2) by simp
  obtain h1 where run: "run_backward h m = Inr h1"
    using run_backward_succeeds[of h m] Cons.prems(3) by auto
  note e = run_backward_effect[OF wf m run]
  have len: "length h1 = length h" using e(1) by (simp add: same_graph_def)
  have wf1: "wf_heap h1" using e(1) wf by (rule same_graph_wf)
  have sub: "set ms \<subseteq> {..<length h1}" using Cons.prems(2) len by simp
  have pw: "\<forall>m' \<in> set ms. \<forall>s e. closure (h1 ! m') = PowBw s e \<longrightarrow> (\<exists>z. pypow (data (h1 ! s)) (e - 1) = Inr (PyFloat z))"
  proof (intro ballI allI impI)
    fix m' s e assume m': "m' \<in> set ms" and c1: "closure (h1 ! m') = PowBw s e"
    have ml: "m' < length h" using m' Cons.prems(2) by auto
    then have c: "closure (h ! m') = PowBw s e" using e(1) c1 by (simp add: same_graph_def)
    have "s < m'" using wf_operands[OF wf ml, of s] c by simp
    then have "data (h1 ! s) = data (h ! s)" using e(1) ml by (simp add: same_graph_def)
    with Cons.prems(3) m' c show "\<exists>z. pypow (data (h1 ! s)) (e - 1) = Inr (PyFloat z)" by fastforce
  qed
  from Cons.IH[OF wf1 sub pw] run show ?case by simp
qed

lemma backward_returns:
  assumes wf: "wf_heap h" and r: "r < length h"
    and pw: "\<forall>m \<in> reach h r. \<forall>s e. closure (h ! m) = PowBw s e \<longrightarrow> (\<exists>z. pypow (data (h ! s)) (e - 1) = Inr (PyFloat z))"
  shows "\<exists>h'. Value_backward h r = Some (Inr h')"
proof -
  from build_topo_result[OF wf_acyclic[OF wf] r] obtain topo where
    t: "build_topo (Suc (length h)) h r ([], {}) = Some (topo, set topo)"
      "distinct topo" "set topo = reach h r" "operands_first h topo"
    by blast
  define h1 where "h1 = h[r := (h ! r)\<lparr>grad := 1\<rparr>]"
  have sg1: "same_graph h h1" using r by (auto simp: same_graph_def h1_def nth_list_update)
  have wf1: "wf_heap h1" using sg1 wf by (rule same_graph_wf)
  have le: "reach h r \<subseteq> {..r}" using wf_acyclic[OF wf] r by (rule reach_le)
  then have sub: "set (rev topo) \<subseteq> {..<length h1}" using t(3) r by (auto simp: h1_def)
  have pw1: "\<forall>m \<in> set (rev topo). \<forall>s e. closure (h1 ! m) = PowBw s e \<longrightarrow> (\<exists>z. pypow (data (h1 ! s)) (e - 1) = Inr (PyFloat z))"
  proof (intro ballI allI impI)
    fix m s e assume m: "m \<in> set (rev topo)" and c1: "closure (h1 ! m) = PowBw s e"
    have mr: "m \<in> reach h r" using m t(3) by simp
    then have ml: "m < length h" using le r by auto
    then have c: "closure (h ! m) = PowBw s e" using sg1 c1 by (simp add: same_graph_def)
    have "s < m" using wf_operands[OF wf ml, of s] c by simp
    then have "data (h1 ! s) = data (h ! s)" using sg1 ml by (simp add: same_graph_def)
    with pw mr c show "\<exists>z. pypow (data (h1 ! s)) (e - 1) = Inr (PyFloat z)" by fastforce
  qed
  from replay_succeeds[OF wf1 sub pw1] obtain h' where "replay h1 (rev topo) = Inr h'" by blast
  then show ?thesis using t(1) by (simp add: Value_backward_def h1_def)
qed

text \<open>
  Claim C8: on a heap of the shape the operators build, \<^verbatim>\<open>backward\<close> returns or raises
  (it does not recurse forever); it returns if the closure of every reachable power node
  can evaluate its power; and when it returns it has changed gradients only. The
  gradient of the root is 1 whatever it was before. The gradient of a node that is not
  reachable from the root is what it was before. The gradient of any other reachable
  node is what it was before plus what the closures of its consumers have added: no
  gradient is reset, so a gradient left from an earlier pass stays in the result.
\<close>

theorem backward_frame:
  assumes "wf_heap h" "r < length h"
  shows "(\<exists>res. Value_backward h r = Some res) \<and>
    ((\<forall>m \<in> reach h r. \<forall>s e. closure (h ! m) = PowBw s e \<longrightarrow>
        (\<exists>z. pypow (data (h ! s)) (e - 1) = Inr (PyFloat z))) \<longrightarrow>
      (\<exists>h'. Value_backward h r = Some (Inr h'))) \<and>
    (Value_backward h r = Some (Inr h') \<longrightarrow>
       same_graph h h' \<and> grad (h' ! r) = 1 \<and>
       (\<forall>n \<in> {..<length h}. n \<notin> reach h r \<longrightarrow> grad (h' ! n) = grad (h ! n)) \<and>
       (\<forall>n \<in> reach h r. n \<noteq> r \<longrightarrow>
           grad (h' ! n) = grad (h ! n) + (\<Sum>m \<in> reach h r. local_grad h m n * grad (h' ! m))))"
proof -
  from build_topo_result[OF wf_acyclic[OF assms(1)] assms(2)]
  have "\<exists>res. Value_backward h r = Some res" by (auto simp: Value_backward_def)
  with backward_effect[OF assms] backward_returns[OF assms] show ?thesis by blast
qed

theorem backward_frame_witness:
  "wf_heap demo_heap \<and> 3 < length demo_heap \<and>
   Value_backward demo_heap 3 = Some (Inr demo_after) \<and>
   4 \<in> {..<length demo_heap} \<and> 4 \<notin> reach demo_heap 3 \<and>
   grad (demo_after ! 4) = grad (demo_heap ! 4) \<and> grad (demo_heap ! 4) = 7 \<and>
   0 \<in> reach demo_heap 3 \<and> (0::nat) \<noteq> 3 \<and>
   grad (demo_after ! 0) =
     grad (demo_heap ! 0) + (\<Sum>m \<in> reach demo_heap 3. local_grad demo_heap m 0 * grad (demo_after ! m)) \<and>
   grad (demo_heap ! 0) = 5 \<and> grad (demo_after ! 0) = 9 \<and> grad (demo_after ! 3) = 1"
proof -
  have 1: "3 < length demo_heap" by (simp add: demo_heap_def)
  have 2: "4 \<in> {..<length demo_heap}" by (simp add: demo_heap_def)
  have 3: "4 \<notin> reach demo_heap 3" using reach_le[OF wf_acyclic[OF demo_wf] 1] by auto
  have "3 \<in> reach demo_heap 3" by (rule reach_refl)
  moreover have "0 \<in> set (prev (demo_heap ! 3))" by (simp add: demo_heap_def)
  ultimately have 4: "0 \<in> reach demo_heap 3" by (rule reach_step)
  have 5: "grad (demo_heap ! 4) = 7" "grad (demo_heap ! 0) = 5" "grad (demo_after ! 0) = 9"
    by (simp_all add: demo_heap_def demo_after_def)
  from backward_frame[OF demo_wf 1, of demo_after] demo_backward demo_wf 1 2 3 4 5
  show ?thesis by auto
qed

text \<open>
  Claim C3: \<^verbatim>\<open>c = a * a\<close> has the single operand \<open>a\<close> in \<^verbatim>\<open>_prev\<close>, and after
  \<^verbatim>\<open>c.backward()\<close> the gradient of \<open>a\<close>, which was 0, is twice the value of \<open>a\<close>:
  the closure of \<open>c\<close> adds to it once as \<^verbatim>\<open>self\<close> and once as \<^verbatim>\<open>other\<close>. When \<open>a\<close> is
  a leaf the pass returns.
\<close>

theorem square_fan_out:
  assumes wf: "wf_heap h" and a: "a < length h" and g: "grad (h ! a) = 0"
    and mul: "Value_mul h a (Ref a) = (c, h1)"
  shows "prev (h1 ! c) = [a] \<and>
    (closure (h ! a) = NoOp \<longrightarrow> (\<exists>h2. Value_backward h1 c = Some (Inr h2))) \<and>
    (Value_backward h1 c = Some (Inr h2) \<longrightarrow>
       grad (h2 ! a) = 2 * data (h ! a) \<and> data (h2 ! a) = data (h ! a))"
proof -
  let ?v = "\<lparr>data = data (h ! a) * data (h ! a), grad = 0, closure = MulBw a a, prev = [a]\<rparr>"
  have c: "c = length h" and h1: "h1 = h @ [?v]"
    using mul by (auto simp: Value_mul_def promote_def Value_init_def)
  have wf1: "wf_heap h1" unfolding h1 using wf a by (intro wf_heap_snoc) simp_all
  have cl: "c < length h1" by (simp add: c h1)
  have pc: "prev (h1 ! c) = [a]" by (simp add: c h1)
  have ac: "a \<noteq> c" using a c by simp
  have a1: "a < length h1" using a h1 by simp
  have da: "data (h1 ! a) = data (h ! a)" "grad (h1 ! a) = 0" using a g by (simp_all add: h1 nth_append)
  have ar: "a \<in> reach h1 c" using reach_refl[of c h1] pc by (auto intro: reach_step)
  have sub: "reach h1 c \<subseteq> insert c {..a}"
  proof (rule reach_closed)
    show "c \<in> insert c {..a}" by simp
  next
    fix m k assume m: "m \<in> insert c {..a}" and k: "k \<in> set (prev (h1 ! m))"
    show "k \<in> insert c {..a}"
    proof (cases "m = c")
      case True
      with k pc show ?thesis by simp
    next
      case False
      with m have "m \<le> a" by simp
      with a1 k wf1 have "k < m" by (auto simp: wf_heap_def)
      with \<open>m \<le> a\<close> show ?thesis by simp
    qed
  qed
  have leaf: "\<exists>h2. Value_backward h1 c = Some (Inr h2)" if n: "closure (h ! a) = NoOp"
  proof (rule backward_returns[OF wf1 cl], intro ballI allI impI)
    fix m s e assume m: "m \<in> reach h1 c" and p: "closure (h1 ! m) = PowBw s e"
    have ca: "closure (h1 ! a) = NoOp" using n a by (simp add: h1 nth_append)
    moreover have "set (prev (h1 ! a)) = set (operands (closure (h1 ! a)))"
      using wf1 a1 by (simp add: wf_heap_def)
    ultimately have "prev (h1 ! a) = []" by simp
    then have "reach h1 c \<subseteq> {c, a}" using pc by (intro reach_closed) auto
    with m have "m = c \<or> m = a" by auto
    with p ca show "\<exists>z. pypow (data (h1 ! s)) (e - 1) = Inr (PyFloat z)" by (auto simp: c h1)
  qed
  have main: "grad (h2 ! a) = 2 * data (h ! a) \<and> data (h2 ! a) = data (h ! a)"
    if bw: "Value_backward h1 c = Some (Inr h2)"
  proof -
    note e = backward_effect[OF wf1 cl bw]
    have fin: "finite (reach h1 c)" using sub by (rule finite_subset) simp
    have cr: "c \<in> reach h1 c" by (rule reach_refl)
    have rest: "(\<Sum>m \<in> reach h1 c - {c}. local_grad h1 m a * grad (h2 ! m)) = 0"
    proof (rule sum.neutral, rule ballI)
      fix m assume "m \<in> reach h1 c - {c}"
      with sub have m: "m \<le> a" by auto
      then have "m < length h1" using a1 by simp
      from wf_operands[OF wf1 this, of a] m have "a \<notin> set (operands (closure (h1 ! m)))" by auto
      then show "local_grad h1 m a * grad (h2 ! m) = 0" by (simp add: local_grad_zero)
    qed
    have lg: "local_grad h1 c a = data (h ! a) + data (h ! a)"
      using a by (simp add: local_grad_def c h1 nth_append)
    have "grad (h2 ! a) = grad (h1 ! a) + (\<Sum>m \<in> reach h1 c. local_grad h1 m a * grad (h2 ! m))"
      using e(4) ar ac by simp
    also have "(\<Sum>m \<in> reach h1 c. local_grad h1 m a * grad (h2 ! m)) =
        local_grad h1 c a * grad (h2 ! c) + (\<Sum>m \<in> reach h1 c - {c}. local_grad h1 m a * grad (h2 ! m))"
      using fin cr by (rule sum.remove)
    finally have "grad (h2 ! a) = 2 * data (h ! a)" using da rest lg e(2) by simp
    moreover have "data (h2 ! a) = data (h ! a)" using e(1) a1 da by (simp add: same_graph_def)
    ultimately show ?thesis by simp
  qed
  from pc leaf main show ?thesis by blast
qed

theorem square_fan_out_witness:
  "wf_heap [leaf 3] \<and> 0 < length [leaf 3] \<and> grad ([leaf 3] ! 0) = 0 \<and>
   Value_mul [leaf 3] 0 (Ref 0) =
     (1, [leaf 3, \<lparr>data = 9, grad = 0, closure = MulBw 0 0, prev = [0]\<rparr>]) \<and>
   closure ([leaf 3] ! 0) = NoOp \<and>
   Value_backward [leaf 3, \<lparr>data = 9, grad = 0, closure = MulBw 0 0, prev = [0]\<rparr>] 1 =
     Some (Inr [\<lparr>data = 3, grad = 6, closure = NoOp, prev = []\<rparr>,
                \<lparr>data = 9, grad = 1, closure = MulBw 0 0, prev = [0]\<rparr>]) \<and>
   grad ([\<lparr>data = 3, grad = 6, closure = NoOp, prev = []\<rparr>,
          \<lparr>data = 9, grad = 1, closure = MulBw 0 0, prev = [0]\<rparr>] ! 0) = 2 * data ([leaf 3] ! 0)"
proof -
  have 1: "wf_heap [leaf 3]" by (simp add: wf_heap_def leaf_def)
  have 2: "0 < length [leaf 3]" by simp
  have 3: "grad ([leaf 3] ! 0) = 0" by (simp add: leaf_def)
  have 4: "Value_mul [leaf 3] 0 (Ref 0) =
     (1, [leaf 3, \<lparr>data = 9, grad = 0, closure = MulBw 0 0, prev = [0]\<rparr>])"
    by (simp add: Value_mul_def promote_def Value_init_def leaf_def)
  have 5: "Value_backward [leaf 3, \<lparr>data = 9, grad = 0, closure = MulBw 0 0, prev = [0]\<rparr>] 1 =
     Some (Inr [\<lparr>data = 3, grad = 6, closure = NoOp, prev = []\<rparr>,
                \<lparr>data = 9, grad = 1, closure = MulBw 0 0, prev = [0]\<rparr>])"
    by (simp add: Value_backward_def leaf_def run_backward_def add_grad_def)
  have 6: "closure ([leaf 3] ! 0) = NoOp" by (simp add: leaf_def)
  from square_fan_out[OF 1 2 3 4] 1 2 3 4 5 6 show ?thesis by (simp add: leaf_def)
qed

section \<open>The gradients are the partial derivatives\<close>

lemma rpow_pos: "0 < x \<Longrightarrow> rpow x k = x powr k"
  by (simp add: rpow_def)

lemma rpow_neg_int: "x < 0 \<Longrightarrow> rpow x (of_int i) = x powi i"
  by (simp add: rpow_def)

lemma rpow_one: "rpow x 1 = x"
  by (cases "x = 0"; cases "0 < x") (auto simp: rpow_def)

lemma deriv_zero_of_bound:
  fixes f :: "real \<Rightarrow> real"
  assumes b: "\<And>x. \<bar>f x\<bar> \<le> \<bar>x\<bar> powr k" and k: "1 < k"
  shows "DERIV f 0 :> 0"
proof -
  have f0: "f 0 = 0" using b[of 0] by simp
  have lim: "((\<lambda>x. \<bar>x\<bar> powr (k - 1)) \<longlongrightarrow> 0) (at 0)"
  proof -
    have "((\<lambda>x::real. \<bar>x\<bar> powr (k - 1)) \<longlongrightarrow> \<bar>0\<bar> powr (k - 1)) (at 0)"
      using k by (intro tendsto_intros) auto
    then show ?thesis by simp
  qed
  have "((\<lambda>x. f x / x) \<longlongrightarrow> 0) (at 0)"
  proof (rule tendsto_0_le[OF lim, where K = 1])
    show "\<forall>\<^sub>F x in at 0. norm (f x / x) \<le> norm (\<bar>x\<bar> powr (k - 1)) * 1"
    proof (rule eventually_at_topological[THEN iffD2], intro exI[of _ UNIV] conjI ballI impI)
      fix x :: real assume "x \<noteq> 0"
      then have "\<bar>f x\<bar> / \<bar>x\<bar> \<le> \<bar>x\<bar> powr k / \<bar>x\<bar>" using b[of x] by (simp add: divide_right_mono)
      also have "\<dots> = \<bar>x\<bar> powr (k - 1)" using \<open>x \<noteq> 0\<close> by (simp add: powr_diff)
      finally show "norm (f x / x) \<le> norm (\<bar>x\<bar> powr (k - 1)) * 1" by simp
    qed simp_all
  qed
  then show ?thesis by (simp add: DERIV_def f0)
qed

lemma rpow_bound: "\<bar>rpow x k\<bar> \<le> \<bar>x\<bar> powr k" if "0 < k"
proof -
  consider "x = 0" | "0 < x" | "x < 0" "of_int \<lfloor>k\<rfloor> = k" | "x < 0" "of_int \<lfloor>k\<rfloor> \<noteq> k" by linarith
  then show ?thesis
  proof cases
    case 1
    then show ?thesis using that by (simp add: rpow_def)
  next
    case 2
    then show ?thesis by (simp add: rpow_def)
  next
    case 3
    have "\<bar>x powi \<lfloor>k\<rfloor>\<bar> = \<bar>x\<bar> powi \<lfloor>k\<rfloor>" by (simp add: power_int_abs)
    also have "\<dots> = \<bar>x\<bar> powr (of_int \<lfloor>k\<rfloor>)" using 3(1) by (simp add: powr_real_of_int')
    finally show ?thesis using 3 by (simp add: rpow_def)
  next
    case 4
    then show ?thesis by (simp add: rpow_def)
  qed
qed

lemma rpow_deriv:
  assumes f: "pypow x0 k = Inr (PyFloat y)" and d: "pypow x0 (k - 1) = Inr (PyFloat z)"
  shows "DERIV (\<lambda>x. rpow x k) x0 :> k * z"
proof -
  consider "0 < x0" | "x0 < 0" | "x0 = 0" by linarith
  then show ?thesis
  proof cases
    case 1
    have z: "z = x0 powr (k - 1)" using d 1 by (auto simp: pypow_def split: if_splits)
    have "eventually (\<lambda>x. x \<in> {0<..}) (nhds x0)" using 1 by (intro eventually_nhds_in_open) auto
    then have ev: "eventually (\<lambda>x. rpow x k = x powr k) (nhds x0)"
      by eventually_elim (simp add: rpow_pos)
    show ?thesis unfolding z
      by (subst DERIV_cong_ev[OF refl ev refl]) (rule has_real_derivative_powr[OF 1])
  next
    case 2
    from f 2 have ki: "of_int \<lfloor>k\<rfloor> = k" by (auto simp: pypow_def split: if_splits)
    define i where "i = \<lfloor>k\<rfloor>"
    have k: "k = of_int i" using ki[symmetric] unfolding i_def .
    have "\<lfloor>k - 1\<rfloor> = i - 1" by (simp add: k)
    then have z: "z = x0 powi (i - 1)" using d 2 by (auto simp: pypow_def k split: if_splits)
    have "eventually (\<lambda>x. x \<in> {..<0}) (nhds x0)" using 2 by (intro eventually_nhds_in_open) auto
    then have ev: "eventually (\<lambda>x. rpow x k = x powi i) (nhds x0)"
      unfolding k by eventually_elim (simp add: rpow_neg_int)
    have "((\<lambda>x. x powi i) has_field_derivative (of_int i * x0 powi (i - 1) * 1)) (at x0)"
      using 2 by (intro DERIV_power_int) auto
    then show ?thesis unfolding z
      by (subst DERIV_cong_ev[OF refl ev refl]) (simp add: k)
  next
    case 3
    from d 3 have k1: "1 \<le> k" and z: "z = (if k = 1 then 1 else 0)"
      by (auto simp: pypow_def split: if_splits)
    show ?thesis
    proof (cases "k = 1")
      case True
      then show ?thesis using z 3 by (simp add: rpow_one)
    next
      case False
      with k1 have "1 < k" by simp
      then have "DERIV (\<lambda>x. rpow x k) 0 :> 0"
        by (intro deriv_zero_of_bound[where k = k] rpow_bound) auto
      with False z 3 show ?thesis by simp
    qed
  qed
qed


lemma length_revals: "length (revals h n x k) = k"
  by (induction k) simp_all

lemma revals_nth: "m < k \<Longrightarrow> revals h n x k ! m = value_with h n x m"
  by (induction k) (auto simp: value_with_def nth_append length_revals less_Suc_eq)

lemma value_with_unfold:
  assumes wf: "wf_heap h" and m: "m < length h"
  shows "value_with h n x m =
     (if m = n then x
      else case closure (h ! m) of
          NoOp \<Rightarrow> data (h ! m)
        | AddBw s t \<Rightarrow> value_with h n x s + value_with h n x t
        | MulBw s t \<Rightarrow> value_with h n x s * value_with h n x t
        | PowBw s k \<Rightarrow> rpow (value_with h n x s) k
        | TanhBw s t \<Rightarrow> (exp (2 * value_with h n x s) - 1) / (exp (2 * value_with h n x s) + 1)
        | ExpBw s \<Rightarrow> exp (value_with h n x s))"
proof -
  have v: "value_with h n x m = (if m = n then x else node_value (h ! m) (revals h n x m))"
    by (simp add: value_with_def nth_append length_revals)
  have lt: "\<And>c. c \<in> set (operands (closure (h ! m))) \<Longrightarrow> c < m"
    using wf_operands[OF wf m] .
  show ?thesis
    unfolding v
    by (cases "closure (h ! m)") (use lt in \<open>auto simp: node_value_def revals_nth\<close>)
qed

lemma sum_one_delta:
  "s < m \<Longrightarrow> (\<Sum>c \<in> {..<m::nat}. (if c = s then p else 0) * f c) = p * (f s :: real)"
proof -
  assume s: "s < m"
  have "(\<Sum>c \<in> {..<m}. (if c = s then p else 0) * f c) = (\<Sum>c \<in> {..<m}. if c = s then p * f c else 0)"
    by (intro sum.cong) auto
  also have "\<dots> = p * f s" using s by (simp add: sum.delta)
  finally show ?thesis .
qed

lemma sum_two_deltas:
  "s < m \<Longrightarrow> t < m \<Longrightarrow>
   (\<Sum>c \<in> {..<m::nat}. ((if c = s then p else 0) + (if c = t then q else 0)) * f c) =
     p * f s + q * (f t :: real)"
proof -
  assume s: "s < m" and t: "t < m"
  have "(\<Sum>c \<in> {..<m}. ((if c = s then p else 0) + (if c = t then q else 0)) * f c) =
      (\<Sum>c \<in> {..<m}. (if c = s then p else 0) * f c + (if c = t then q else 0) * f c)"
    by (intro sum.cong) (auto simp: algebra_simps)
  also have "\<dots> = p * f s + q * f t"
    using s t by (simp add: sum.distrib sum_one_delta)
  finally show ?thesis .
qed

lemma tangent_unfold:
  assumes wf: "wf_heap h" and m: "m < length h" and mn: "m \<noteq> n"
  shows "tangent h n m =
     (case closure (h ! m) of
          NoOp \<Rightarrow> 0
        | AddBw s t \<Rightarrow> tangent h n s + tangent h n t
        | MulBw s t \<Rightarrow> data (h ! t) * tangent h n s + data (h ! s) * tangent h n t
        | PowBw s k \<Rightarrow> k * rpow (data (h ! s)) (k - 1) * tangent h n s
        | TanhBw s t \<Rightarrow> (1 - t\<^sup>2) * tangent h n s
        | ExpBw s \<Rightarrow> data (h ! m) * tangent h n s)"
proof -
  have t: "tangent h n m = (\<Sum>c \<in> {..<m}. local_grad h m c * tangent h n c)"
    using mn by (subst tangent.simps) simp
  have lt: "\<And>c. c \<in> set (operands (closure (h ! m))) \<Longrightarrow> c < m"
    using wf_operands[OF wf m] .
  show ?thesis
  proof (cases "closure (h ! m)")
    case NoOp
    then show ?thesis unfolding t by (simp add: local_grad_def)
  next
    case (AddBw s u)
    with lt have "s < m" "u < m" by auto
    then show ?thesis unfolding t using AddBw by (simp add: local_grad_def sum_two_deltas)
  next
    case (MulBw s u)
    with lt have "s < m" "u < m" by auto
    then show ?thesis unfolding t using MulBw by (simp add: local_grad_def sum_two_deltas)
  next
    case (PowBw s k)
    with lt have "s < m" by auto
    then show ?thesis unfolding t using PowBw
      by (simp add: local_grad_def sum_one_delta rpow_def)
  next
    case (TanhBw s u)
    with lt have "s < m" by auto
    then show ?thesis unfolding t using TanhBw by (simp add: local_grad_def sum_one_delta)
  next
    case (ExpBw s)
    with lt have "s < m" by auto
    then show ?thesis unfolding t using ExpBw by (simp add: local_grad_def sum_one_delta)
  qed
qed

lemma forward_ok_atD:
  "forward_ok_at h m \<Longrightarrow>
   (case closure (h ! m) of
          NoOp \<Rightarrow> True
        | AddBw self other \<Rightarrow> data (h ! m) = data (h ! self) + data (h ! other)
        | MulBw self other \<Rightarrow> data (h ! m) = data (h ! self) * data (h ! other)
        | PowBw self k \<Rightarrow> pypow (data (h ! self)) k = Inr (PyFloat (data (h ! m)))
        | TanhBw self t \<Rightarrow>
            t = (exp (2 * data (h ! self)) - 1) / (exp (2 * data (h ! self)) + 1) \<and>
            data (h ! m) = t
        | ExpBw self \<Rightarrow> data (h ! m) = exp (data (h ! self)))"
  by (simp add: forward_ok_at_def)

text \<open>
  On a power node that holds what \<^verbatim>\<open>__pow__\<close> computed, the power in the closure is a
  float or raises: the gradient stays real.
\<close>

lemma run_backward_real: "forward_ok_at h m \<Longrightarrow> run_backward h m \<noteq> Inl ComplexGradient"
proof (cases "closure (h ! m)")
  case (PowBw s k)
  assume "forward_ok_at h m"
  with PowBw have f: "pypow (data (h ! s)) k = Inr (PyFloat (data (h ! m)))"
    by (simp add: forward_ok_at_def)
  have "of_int \<lfloor>k - 1\<rfloor> = k - 1" if "data (h ! s) < 0"
  proof -
    have ki: "of_int \<lfloor>k\<rfloor> = k" by (rule pypow_PyFloatD(3)[OF f, THEN mp, OF that])
    define i where "i = \<lfloor>k\<rfloor>"
    have k: "k = of_int i" using ki[symmetric] unfolding i_def .
    have "\<lfloor>k - 1\<rfloor> = i - 1" by (simp add: k)
    then show ?thesis by (simp add: k)
  qed
  then have "pypow (data (h ! s)) (k - 1) \<noteq> Inr (PyComplex z)" for z
    by (auto simp: pypow_def)
  with PowBw show ?thesis
    by (auto simp: run_backward_def split: sum.splits pynum.splits)
qed (simp_all add: run_backward_def Let_def)

lemma reach_operand:
  assumes "wf_heap h" "m < length h" "c \<in> set (operands (closure (h ! m)))"
  shows "reach h c \<subseteq> reach h m"
proof -
  have "c \<in> set (prev (h ! m))" using assms by (auto simp: wf_heap_def)
  then show ?thesis by (rule reach_child)
qed

lemma value_with_base:
  assumes wf: "wf_heap h"
  shows "m < length h \<Longrightarrow> (\<forall>k \<in> reach h m. forward_ok_at h k) \<Longrightarrow>
    value_with h n (data (h ! n)) m = data (h ! m)"
proof (induction m rule: less_induct)
  case (less m)
  note m = \<open>m < length h\<close>
  note fw = \<open>\<forall>k \<in> reach h m. forward_ok_at h k\<close>
  have lt: "\<And>c. c \<in> set (operands (closure (h ! m))) \<Longrightarrow>
      c < m \<and> c < length h \<and> (\<forall>k \<in> reach h c. forward_ok_at h k)"
    using wf_operands[OF wf m] m reach_operand[OF wf m] fw by fastforce
  have f: "case closure (h ! m) of
          NoOp \<Rightarrow> True
        | AddBw self other \<Rightarrow> data (h ! m) = data (h ! self) + data (h ! other)
        | MulBw self other \<Rightarrow> data (h ! m) = data (h ! self) * data (h ! other)
        | PowBw self k \<Rightarrow> pypow (data (h ! self)) k = Inr (PyFloat (data (h ! m)))
        | TanhBw self t \<Rightarrow>
            t = (exp (2 * data (h ! self)) - 1) / (exp (2 * data (h ! self)) + 1) \<and>
            data (h ! m) = t
        | ExpBw self \<Rightarrow> data (h ! m) = exp (data (h ! self))"
    using fw reach_refl[of m h] by (intro forward_ok_atD) blast
  show ?case
  proof (cases "m = n")
    case True
    with m show ?thesis by (simp add: value_with_unfold[OF wf])
  next
    case False
    show ?thesis
    proof (cases "closure (h ! m)")
      case NoOp
      with False show ?thesis by (simp add: value_with_unfold[OF wf m])
    next
      case (AddBw s t)
      with lt less.IH have "value_with h n (data (h ! n)) s = data (h ! s)"
        "value_with h n (data (h ! n)) t = data (h ! t)" by auto
      with AddBw False f show ?thesis by (simp add: value_with_unfold[OF wf m])
    next
      case (MulBw s t)
      with lt less.IH have "value_with h n (data (h ! n)) s = data (h ! s)"
        "value_with h n (data (h ! n)) t = data (h ! t)" by auto
      with MulBw False f show ?thesis by (simp add: value_with_unfold[OF wf m])
    next
      case (PowBw s k)
      with lt less.IH have "value_with h n (data (h ! n)) s = data (h ! s)" by auto
      with PowBw False f pypow_PyFloatD(1)[of "data (h ! s)" k "data (h ! m)"] show ?thesis
        by (simp add: value_with_unfold[OF wf m])
    next
      case (TanhBw s t)
      with lt less.IH have "value_with h n (data (h ! n)) s = data (h ! s)" by auto
      with TanhBw False f show ?thesis by (simp add: value_with_unfold[OF wf m])
    next
      case (ExpBw s)
      with lt less.IH have "value_with h n (data (h ! n)) s = data (h ! s)" by auto
      with ExpBw False f show ?thesis by (simp add: value_with_unfold[OF wf m])
    qed
  qed
qed


lemma value_with_deriv:
  assumes wf: "wf_heap h"
  shows "m < length h \<Longrightarrow> (\<forall>k \<in> reach h m. forward_ok_at h k) \<Longrightarrow>
    (\<forall>k \<in> reach h m. \<forall>s e. closure (h ! k) = PowBw s e \<longrightarrow> (\<exists>z. pypow (data (h ! s)) (e - 1) = Inr (PyFloat z))) \<Longrightarrow>
    DERIV (\<lambda>x. value_with h n x m) (data (h ! n)) :> tangent h n m"
proof (induction m rule: less_induct)
  case (less m)
  note m = \<open>m < length h\<close>
  note pw = \<open>\<forall>k \<in> reach h m. \<forall>s e. closure (h ! k) = PowBw s e \<longrightarrow> (\<exists>z. pypow (data (h ! s)) (e - 1) = Inr (PyFloat z))\<close>
  note fw = \<open>\<forall>k \<in> reach h m. forward_ok_at h k\<close>
  have lt: "\<And>c. c \<in> set (operands (closure (h ! m))) \<Longrightarrow> c < m \<and> c < length h"
    using wf_operands[OF wf m] m by fastforce
  have sub: "\<And>c. c \<in> set (operands (closure (h ! m))) \<Longrightarrow> reach h c \<subseteq> reach h m"
    by (rule reach_operand[OF wf m])
  have ih: "\<And>c. c \<in> set (operands (closure (h ! m))) \<Longrightarrow>
      DERIV (\<lambda>x. value_with h n x c) (data (h ! n)) :> tangent h n c"
  proof -
    fix c assume c: "c \<in> set (operands (closure (h ! m)))"
    show "DERIV (\<lambda>x. value_with h n x c) (data (h ! n)) :> tangent h n c"
      using lt[OF c] sub[OF c] pw fw by (intro less.IH) auto
  qed
  have base: "\<And>c. c \<in> set (operands (closure (h ! m))) \<Longrightarrow> value_with h n (data (h ! n)) c = data (h ! c)"
    using lt sub fw by (intro value_with_base[OF wf]) auto
  have f: "case closure (h ! m) of
          NoOp \<Rightarrow> True
        | AddBw self other \<Rightarrow> data (h ! m) = data (h ! self) + data (h ! other)
        | MulBw self other \<Rightarrow> data (h ! m) = data (h ! self) * data (h ! other)
        | PowBw self k \<Rightarrow> pypow (data (h ! self)) k = Inr (PyFloat (data (h ! m)))
        | TanhBw self t \<Rightarrow>
            t = (exp (2 * data (h ! self)) - 1) / (exp (2 * data (h ! self)) + 1) \<and>
            data (h ! m) = t
        | ExpBw self \<Rightarrow> data (h ! m) = exp (data (h ! self))"
    using fw reach_refl[of m h] by (intro forward_ok_atD) blast
  show ?case
  proof (cases "m = n")
    case True
    have "(\<lambda>x. value_with h n x m) = (\<lambda>x. x)"
      using True m by (simp add: value_with_unfold[OF wf])
    moreover have "tangent h n m = 1" using True by (subst tangent.simps) simp
    ultimately show ?thesis by simp
  next
    case False
    note tu = tangent_unfold[OF wf m False]
    note vu = value_with_unfold[OF wf m]
    show ?thesis
    proof (cases "closure (h ! m)")
      case NoOp
      have "(\<lambda>x. value_with h n x m) = (\<lambda>x. data (h ! m))" using False NoOp by (simp add: vu)
      moreover have "tangent h n m = 0" using NoOp by (simp add: tu)
      ultimately show ?thesis by simp
    next
      case (AddBw s t)
      have e: "(\<lambda>x. value_with h n x m) = (\<lambda>x. value_with h n x s + value_with h n x t)"
        using False AddBw by (simp add: vu)
      have t: "tangent h n m = tangent h n s + tangent h n t" using AddBw by (simp add: tu)
      show ?thesis unfolding e t using ih[of s] ih[of t] AddBw by (intro DERIV_add) simp_all
    next
      case (MulBw s t)
      have e: "(\<lambda>x. value_with h n x m) = (\<lambda>x. value_with h n x s * value_with h n x t)"
        using False MulBw by (simp add: vu)
      have t: "tangent h n m = tangent h n s * data (h ! t) + tangent h n t * data (h ! s)"
        using MulBw by (simp add: tu algebra_simps)
      have "DERIV (\<lambda>x. value_with h n x s * value_with h n x t) (data (h ! n)) :>
          tangent h n s * value_with h n (data (h ! n)) t + tangent h n t * value_with h n (data (h ! n)) s"
        using ih[of s] ih[of t] MulBw by (intro DERIV_mult) simp_all
      then show ?thesis unfolding e t using base[of s] base[of t] MulBw by simp
    next
      case (PowBw s k)
      have e: "(\<lambda>x. value_with h n x m) = (\<lambda>x. rpow (value_with h n x s) k)"
        using False PowBw by (simp add: vu)
      from f PowBw have fy: "pypow (data (h ! s)) k = Inr (PyFloat (data (h ! m)))" by simp
      from pw PowBw reach_refl[of m h] obtain z where z: "pypow (data (h ! s)) (k - 1) = Inr (PyFloat z)"
        by blast
      have t: "tangent h n m = k * z * tangent h n s"
        using PowBw pypow_PyFloatD(1)[OF z] by (simp add: tu)
      have d: "DERIV (\<lambda>y. rpow y k) (value_with h n (data (h ! n)) s) :> k * z"
        using rpow_deriv[OF fy z] base[of s] PowBw by simp
      have "DERIV (\<lambda>x. rpow (value_with h n x s) k) (data (h ! n)) :> k * z * tangent h n s"
      proof -
        have "DERIV (\<lambda>x. value_with h n x s) (data (h ! n)) :> tangent h n s"
          using ih[of s] PowBw by simp
        from DERIV_chain2[OF d this] show ?thesis .
      qed
      then show ?thesis unfolding e t .
    next
      case (TanhBw s u)
      have e: "(\<lambda>x. value_with h n x m) = (\<lambda>x. tanh (value_with h n x s))"
        using False TanhBw by (simp add: vu tanh_formula)
      from f TanhBw have u: "u = tanh (data (h ! s))" by (simp add: tanh_formula)
      have t: "tangent h n m = (1 - (tanh (data (h ! s)))\<^sup>2) * tangent h n s"
        using TanhBw u by (simp add: tu)
      have "DERIV (\<lambda>x. tanh (value_with h n x s)) (data (h ! n)) :>
          (1 - (tanh (data (h ! s)))\<^sup>2) * tangent h n s"
      proof -
        have i: "DERIV (\<lambda>x. value_with h n x s) (data (h ! n)) :> tangent h n s"
          using ih[of s] TanhBw by simp
        have c: "cosh (value_with h n (data (h ! n)) s) \<noteq> 0" by simp
        from has_field_derivative_tanh[OF c i] base[of s] TanhBw show ?thesis by simp
      qed
      then show ?thesis unfolding e t .
    next
      case (ExpBw s)
      have e: "(\<lambda>x. value_with h n x m) = (\<lambda>x. exp (value_with h n x s))"
        using False ExpBw by (simp add: vu)
      from f ExpBw have u: "data (h ! m) = exp (data (h ! s))" by simp
      have t: "tangent h n m = exp (data (h ! s)) * tangent h n s"
        using ExpBw u by (simp add: tu)
      have d: "DERIV exp (value_with h n (data (h ! n)) s) :> exp (data (h ! s))"
        using base[of s] ExpBw DERIV_exp[of "data (h ! s)"] by simp
      have "DERIV (\<lambda>x. exp (value_with h n x s)) (data (h ! n)) :> exp (data (h ! s)) * tangent h n s"
      proof -
        have "DERIV (\<lambda>x. value_with h n x s) (data (h ! n)) :> tangent h n s"
          using ih[of s] ExpBw by simp
        from DERIV_chain2[OF d this] show ?thesis .
      qed
      then show ?thesis unfolding e t .
    qed
  qed
qed


lemma tangent_zero_below: "m < n \<Longrightarrow> tangent h n m = 0"
proof (induction m rule: less_induct)
  case (less m)
  have "tangent h n m = (\<Sum>c \<in> {..<m}. local_grad h m c * tangent h n c)"
    using less.prems by (subst tangent.simps) simp
  also have "\<dots> = 0"
    using less by (intro sum.neutral) auto
  finally show ?case .
qed

lemma local_grad_zero_ge:
  assumes "wf_heap h" "m < length h" "m \<le> c"
  shows "local_grad h m c = 0"
proof (rule local_grad_zero)
  show "c \<notin> set (operands (closure (h ! m)))"
    using wf_operands[OF assms(1,2), of c] assms(3) by auto
qed

lemma tangent_forward:
  assumes wf: "wf_heap h" and r: "r < length h"
  shows "tangent h n r =
    (if r = n then 1 else 0) + (\<Sum>c \<in> {..<length h}. local_grad h r c * tangent h n c)"
proof -
  have ext: "(\<Sum>c \<in> {..<r}. local_grad h r c * tangent h n c) =
      (\<Sum>c \<in> {..<length h}. local_grad h r c * tangent h n c)"
    using r by (intro sum.mono_neutral_left) (auto simp: local_grad_zero_ge[OF wf r])
  show ?thesis
  proof (cases "r = n")
    case True
    have "(\<Sum>c \<in> {..<r}. local_grad h r c * tangent h n c) = 0"
      using True by (intro sum.neutral) (auto simp: tangent_zero_below)
    with ext True show ?thesis by (subst tangent.simps) simp
  next
    case False
    with ext show ?thesis by (subst tangent.simps) simp
  qed
qed

lemma tangent_backward:
  assumes wf: "wf_heap h"
  shows "r < length h \<Longrightarrow> tangent h n r =
    (if r = n then 1 else 0) + (\<Sum>m \<in> {..<length h}. tangent h m r * local_grad h m n)"
proof (induction r arbitrary: n rule: less_induct)
  case (less r)
  note r = \<open>r < length h\<close>
  let ?N = "{..<length h}"
  let ?d = "\<lambda>i j. if i = j then 1 else (0::real)"
  have step: "\<And>c. c \<in> ?N \<Longrightarrow> local_grad h r c * tangent h n c =
      local_grad h r c * (?d c n + (\<Sum>m \<in> ?N. tangent h m c * local_grad h m n))"
  proof -
    fix c assume "c \<in> ?N"
    show "local_grad h r c * tangent h n c =
      local_grad h r c * (?d c n + (\<Sum>m \<in> ?N. tangent h m c * local_grad h m n))"
    proof (cases "c < r")
      case True
      then have "c < length h" using r by simp
      from less.IH[OF True this, of n] show ?thesis by simp
    next
      case False
      then have "local_grad h r c = 0" by (intro local_grad_zero_ge[OF wf r]) simp
      then show ?thesis by simp
    qed
  qed
  have inner: "\<And>m. m \<in> ?N \<Longrightarrow> (\<Sum>c \<in> ?N. local_grad h r c * tangent h m c) = tangent h m r - ?d r m"
    using tangent_forward[OF wf r] by simp
  have "(\<Sum>c \<in> ?N. local_grad h r c * tangent h n c) =
      (\<Sum>c \<in> ?N. local_grad h r c * ?d c n + (\<Sum>m \<in> ?N. local_grad h r c * tangent h m c * local_grad h m n))"
    by (intro sum.cong refl) (simp add: step algebra_simps sum_distrib_left)
  also have "\<dots> = (\<Sum>c \<in> ?N. local_grad h r c * ?d c n) +
      (\<Sum>c \<in> ?N. \<Sum>m \<in> ?N. local_grad h r c * tangent h m c * local_grad h m n)"
    by (simp add: sum.distrib)
  also have "(\<Sum>c \<in> ?N. local_grad h r c * ?d c n) = local_grad h r n"
  proof (cases "n < length h")
    case True
    have "(\<Sum>c \<in> ?N. local_grad h r c * ?d c n) = (\<Sum>c \<in> ?N. if c = n then local_grad h r c else 0)"
      by (intro sum.cong) auto
    with True show ?thesis by (simp add: sum.delta)
  next
    case False
    have "(\<Sum>c \<in> ?N. local_grad h r c * ?d c n) = 0"
      using False by (intro sum.neutral) auto
    moreover have "local_grad h r n = 0" using False r by (intro local_grad_zero_ge[OF wf r]) simp
    ultimately show ?thesis by simp
  qed
  also have "(\<Sum>c \<in> ?N. \<Sum>m \<in> ?N. local_grad h r c * tangent h m c * local_grad h m n) =
      (\<Sum>m \<in> ?N. \<Sum>c \<in> ?N. local_grad h r c * tangent h m c * local_grad h m n)"
    by (rule sum.swap)
  also have "\<dots> = (\<Sum>m \<in> ?N. (tangent h m r - ?d r m) * local_grad h m n)"
    by (intro sum.cong refl) (simp add: inner[symmetric] sum_distrib_right)
  also have "\<dots> = (\<Sum>m \<in> ?N. tangent h m r * local_grad h m n) - (\<Sum>m \<in> ?N. ?d r m * local_grad h m n)"
    by (simp add: algebra_simps sum_subtractf)
  also have "(\<Sum>m \<in> ?N. ?d r m * local_grad h m n) = local_grad h r n"
  proof -
    have "(\<Sum>m \<in> ?N. ?d r m * local_grad h m n) = (\<Sum>m \<in> ?N. if m = r then local_grad h m n else 0)"
      by (intro sum.cong) auto
    with r show ?thesis by (simp add: sum.delta)
  qed
  finally have "(\<Sum>c \<in> ?N. local_grad h r c * tangent h n c) =
      (\<Sum>m \<in> ?N. tangent h m r * local_grad h m n)" by simp
  with tangent_forward[OF wf r, of n] show ?case by simp
qed

lemma tangent_unreachable:
  assumes wf: "wf_heap h"
  shows "r < length h \<Longrightarrow> m \<notin> reach h r \<Longrightarrow> tangent h m r = 0"
proof (induction r rule: less_induct)
  case (less r)
  note r = \<open>r < length h\<close>
  have ne: "r \<noteq> m" using less.prems(2) reach_refl[of r h] by auto
  have "tangent h m r = (\<Sum>c \<in> {..<r}. local_grad h r c * tangent h m c)"
    using ne by (subst tangent.simps) simp
  also have "\<dots> = 0"
  proof (rule sum.neutral, rule ballI)
    fix c assume c: "c \<in> {..<r}"
    show "local_grad h r c * tangent h m c = 0"
    proof (cases "c \<in> set (operands (closure (h ! r)))")
      case True
      then have "c \<in> set (prev (h ! r))" using wf r by (auto simp: wf_heap_def)
      then have "reach h c \<subseteq> reach h r" by (rule reach_child)
      with less.prems(2) have "m \<notin> reach h c" by auto
      moreover have "c < r" "c < length h" using c r by auto
      ultimately have "tangent h m c = 0" by (intro less.IH)
      then show ?thesis by simp
    next
      case False
      then show ?thesis by (simp add: local_grad_zero)
    qed
  qed
  finally show ?case .
qed

lemma adjoint_is_tangent:
  assumes wf: "wf_heap h" and r: "r < length h"
    and g: "\<And>n. n \<in> reach h r \<Longrightarrow>
      g n = (if n = r then 1 else 0) + (\<Sum>m \<in> reach h r. local_grad h m n * g m)"
  shows "n \<in> reach h r \<Longrightarrow> g n = tangent h n r"
proof (induction "r - n" arbitrary: n rule: less_induct)
  case less
  note n = \<open>n \<in> reach h r\<close>
  have le: "reach h r \<subseteq> {..r}" using wf_acyclic[OF wf] r by (rule reach_le)
  have "(\<Sum>m \<in> reach h r. local_grad h m n * g m) = (\<Sum>m \<in> reach h r. tangent h m r * local_grad h m n)"
  proof (rule sum.cong[OF refl])
    fix m assume m: "m \<in> reach h r"
    then have ml: "m < length h" "m \<le> r" using le r by auto
    show "local_grad h m n * g m = tangent h m r * local_grad h m n"
    proof (cases "n < m")
      case True
      then have "r - m < r - n" using ml(2) by simp
      from less.hyps[OF this m] show ?thesis by simp
    next
      case False
      then have "local_grad h m n = 0" by (intro local_grad_zero_ge[OF wf ml(1)]) simp
      then show ?thesis by simp
    qed
  qed
  also have "\<dots> = (\<Sum>m \<in> {..<length h}. tangent h m r * local_grad h m n)"
    using le r by (intro sum.mono_neutral_left) (auto simp: tangent_unreachable[OF wf r])
  finally show ?case using g[OF n] tangent_backward[OF wf r, of n] by simp
qed


lemma replay_pow_defined:
  assumes "wf_heap h" "set ms \<subseteq> {..<length h}" "replay h ms = Inr h'"
  shows "\<forall>m \<in> set ms. \<forall>s e. closure (h ! m) = PowBw s e \<longrightarrow> (\<exists>z. pypow (data (h ! s)) (e - 1) = Inr (PyFloat z))"
  using assms
proof (induction ms arbitrary: h)
  case Nil
  then show ?case by simp
next
  case (Cons m ms)
  note wf = \<open>wf_heap h\<close>
  have m: "m < length h" using Cons.prems(2) by simp
  obtain h1 where run: "run_backward h m = Inr h1" and rest: "replay h1 ms = Inr h'"
    using Cons.prems(3) by (auto split: sum.splits pynum.splits)
  note e = run_backward_effect[OF wf m run]
  have len: "length h1 = length h" using e(1) by (simp add: same_graph_def)
  have wf1: "wf_heap h1" using e(1) wf by (rule same_graph_wf)
  have sub: "set ms \<subseteq> {..<length h1}" using Cons.prems(2) len by simp
  note ih = Cons.IH[OF wf1 sub rest]
  have here: "\<forall>s e. closure (h ! m) = PowBw s e \<longrightarrow> (\<exists>z. pypow (data (h ! s)) (e - 1) = Inr (PyFloat z))"
    using run by (auto simp: run_backward_def split: sum.splits pynum.splits)
  have there: "\<forall>m' \<in> set ms. \<forall>s e. closure (h ! m') = PowBw s e \<longrightarrow> (\<exists>z. pypow (data (h ! s)) (e - 1) = Inr (PyFloat z))"
  proof (intro ballI allI impI)
    fix m' s e assume m': "m' \<in> set ms" and c: "closure (h ! m') = PowBw s e"
    have ml: "m' < length h" using m' Cons.prems(2) by auto
    then have c1: "closure (h1 ! m') = PowBw s e" using e(1) c by (simp add: same_graph_def)
    have "s < m'" using wf_operands[OF wf ml, of s] c by simp
    then have "data (h1 ! s) = data (h ! s)" using e(1) ml by (simp add: same_graph_def)
    with ih m' c1 show "\<exists>z. pypow (data (h ! s)) (e - 1) = Inr (PyFloat z)" by fastforce
  qed
  from here there show ?case by simp
qed

lemma backward_pow_defined:
  assumes wf: "wf_heap h" and r: "r < length h" and bw: "Value_backward h r = Some (Inr h')"
  shows "\<forall>m \<in> reach h r. \<forall>s e. closure (h ! m) = PowBw s e \<longrightarrow> (\<exists>z. pypow (data (h ! s)) (e - 1) = Inr (PyFloat z))"
proof -
  from build_topo_result[OF wf_acyclic[OF wf] r] obtain topo where
    t: "build_topo (Suc (length h)) h r ([], {}) = Some (topo, set topo)"
      "distinct topo" "set topo = reach h r" "operands_first h topo"
    by blast
  define h1 where "h1 = h[r := (h ! r)\<lparr>grad := 1\<rparr>]"
  have rp: "replay h1 (rev topo) = Inr h'" using bw t(1) by (simp add: Value_backward_def h1_def)
  have sg1: "same_graph h h1" using r by (auto simp: same_graph_def h1_def nth_list_update)
  have wf1: "wf_heap h1" using sg1 wf by (rule same_graph_wf)
  have le: "reach h r \<subseteq> {..r}" using wf_acyclic[OF wf] r by (rule reach_le)
  then have sub: "set (rev topo) \<subseteq> {..<length h1}" using t(3) r by (auto simp: h1_def)
  note p = replay_pow_defined[OF wf1 sub rp]
  show ?thesis
  proof (intro ballI allI impI)
    fix m s e assume m: "m \<in> reach h r" and c: "closure (h ! m) = PowBw s e"
    have ml: "m < length h" using m le r by auto
    then have c1: "closure (h1 ! m) = PowBw s e" using sg1 c by (simp add: same_graph_def)
    have "s < m" using wf_operands[OF wf ml, of s] c by simp
    then have "data (h1 ! s) = data (h ! s)" using sg1 ml by (simp add: same_graph_def)
    with p m t(3) c1 show "\<exists>z. pypow (data (h ! s)) (e - 1) = Inr (PyFloat z)" by fastforce
  qed
qed

text \<open>
  Claim C1. Let the heap have the shape the operators build, let every node reachable
  from the root \<open>r\<close> hold the value its operator computes from its operands, and let
  the gradient of every reachable node other than \<open>r\<close> be 0. If \<^verbatim>\<open>r.backward()\<close>
  returns, then for every node \<open>n\<close> reachable from \<open>r\<close> the gradient of \<open>n\<close> is the
  derivative, at the value of \<open>n\<close>, of the value of \<open>r\<close> as a function of the value of
  \<open>n\<close>: the function that gives \<open>n\<close> the value \<open>x\<close> and computes every node that depends
  on \<open>n\<close> again, along every path from \<open>n\<close> to \<open>r\<close>. The arithmetic is that of the
  reals.
\<close>

theorem backward_computes_partial_derivatives:
  assumes wf: "wf_heap h" and r: "r < length h"
    and fw: "\<forall>m \<in> reach h r. forward_ok_at h m"
    and z: "\<forall>n \<in> reach h r. n \<noteq> r \<longrightarrow> grad (h ! n) = 0"
    and bw: "Value_backward h r = Some (Inr h')"
  shows "\<forall>n \<in> reach h r.
      value_with h n (data (h ! n)) r = data (h ! r) \<and>
      DERIV (\<lambda>x. value_with h n x r) (data (h ! n)) :> grad (h' ! n)"
proof
  fix n assume n: "n \<in> reach h r"
  note e = backward_effect[OF wf r bw]
  have le: "reach h r \<subseteq> {..r}" using wf_acyclic[OF wf] r by (rule reach_le)
  have g: "\<And>k. k \<in> reach h r \<Longrightarrow>
      grad (h' ! k) = (if k = r then 1 else 0) + (\<Sum>m \<in> reach h r. local_grad h m k * grad (h' ! m))"
  proof -
    fix k assume k: "k \<in> reach h r"
    show "grad (h' ! k) = (if k = r then 1 else 0) + (\<Sum>m \<in> reach h r. local_grad h m k * grad (h' ! m))"
    proof (cases "k = r")
      case True
      have "(\<Sum>m \<in> reach h r. local_grad h m r * grad (h' ! m)) = 0"
      proof (rule sum.neutral, rule ballI)
        fix m assume "m \<in> reach h r"
        then have "m < length h" "m \<le> r" using le r by auto
        then have "local_grad h m r = 0" by (intro local_grad_zero_ge[OF wf])
        then show "local_grad h m r * grad (h' ! m) = 0" by simp
      qed
      with True e(2) show ?thesis by simp
    next
      case False
      with e(4) z k show ?thesis by simp
    qed
  qed
  have "grad (h' ! n) = tangent h n r"
    using wf r g n by (rule adjoint_is_tangent)
  moreover have "DERIV (\<lambda>x. value_with h n x r) (data (h ! n)) :> tangent h n r"
    using r fw backward_pow_defined[OF wf r bw] by (intro value_with_deriv[OF wf])
  moreover have "value_with h n (data (h ! n)) r = data (h ! r)"
    using r fw by (intro value_with_base[OF wf])
  ultimately show "value_with h n (data (h ! n)) r = data (h ! r) \<and>
      DERIV (\<lambda>x. value_with h n x r) (data (h ! n)) :> grad (h' ! n)" by simp
qed


lemma demo_fresh_built:
  "snd (Value_add (snd (Value_mul [leaf 2, leaf 3] 0 (Ref 1))) 2 (Ref 0)) = demo_fresh"
  by (simp add: Value_add_def Value_mul_def promote_def Value_init_def leaf_def demo_fresh_def)

lemma demo_fresh_wf: "wf_heap demo_fresh"
  by (simp add: wf_heap_def demo_fresh_def lessThan_Suc numeral_eq_Suc)

lemma demo_fresh_backward:
  "Value_backward demo_fresh 3 = Some (Inr
     [\<lparr>data = 2, grad = 4, closure = NoOp, prev = []\<rparr>,
      \<lparr>data = 3, grad = 2, closure = NoOp, prev = []\<rparr>,
      \<lparr>data = 6, grad = 1, closure = MulBw 0 1, prev = [0, 1]\<rparr>,
      \<lparr>data = 8, grad = 1, closure = AddBw 2 0, prev = [2, 0]\<rparr>])"
proof -
  have "build_topo (Suc (length demo_fresh)) demo_fresh 3 ([], {}) = Some ([0, 1, 2, 3], {0, 1, 2, 3})"
    by (auto simp: demo_fresh_def numeral_eq_Suc)
  then show ?thesis
    by (simp add: Value_backward_def)
      (simp add: demo_fresh_def run_backward_def add_grad_def numeral_eq_Suc)
qed

theorem backward_computes_partial_derivatives_witness:
  "wf_heap demo_fresh \<and> 3 < length demo_fresh \<and>
   list_all (forward_ok_at demo_fresh) [0, 1, 2, 3] \<and>
   list_all (\<lambda>n. grad (demo_fresh ! n) = 0) [0, 1, 2] \<and>
   Value_backward demo_fresh 3 = Some (Inr
     [\<lparr>data = 2, grad = 4, closure = NoOp, prev = []\<rparr>,
      \<lparr>data = 3, grad = 2, closure = NoOp, prev = []\<rparr>,
      \<lparr>data = 6, grad = 1, closure = MulBw 0 1, prev = [0, 1]\<rparr>,
      \<lparr>data = 8, grad = 1, closure = AddBw 2 0, prev = [2, 0]\<rparr>]) \<and>
   0 \<in> reach demo_fresh 3 \<and>
   DERIV (\<lambda>x. value_with demo_fresh 0 x 3) 2 :> 4"
proof -
  let ?h' = "[\<lparr>data = 2, grad = 4, closure = NoOp, prev = []\<rparr>,
      \<lparr>data = 3, grad = 2, closure = NoOp, prev = []\<rparr>,
      \<lparr>data = 6, grad = 1, closure = MulBw 0 1, prev = [0, 1]\<rparr>,
      \<lparr>data = 8, grad = 1, closure = AddBw 2 0, prev = [2, 0]\<rparr>]"
  have 1: "3 < length demo_fresh" by (simp add: demo_fresh_def)
  have le: "reach demo_fresh 3 \<subseteq> {..3}" using wf_acyclic[OF demo_fresh_wf] 1 by (rule reach_le)
  have f: "list_all (forward_ok_at demo_fresh) [0, 1, 2, 3]"
    by (simp add: forward_ok_at_def demo_fresh_def)
  have g: "list_all (\<lambda>n. grad (demo_fresh ! n) = 0) [0, 1, 2]"
    by (simp add: demo_fresh_def)
  have set3: "{..3::nat} = {0, 1, 2, 3}" by auto
  have 2: "\<forall>m \<in> reach demo_fresh 3. forward_ok_at demo_fresh m"
    using f le set3 by auto
  have 3: "\<forall>n \<in> reach demo_fresh 3. n \<noteq> 3 \<longrightarrow> grad (demo_fresh ! n) = 0"
    using g le set3 by auto
  have "3 \<in> reach demo_fresh 3" by (rule reach_refl)
  moreover have "0 \<in> set (prev (demo_fresh ! 3))" by (simp add: demo_fresh_def)
  ultimately have 4: "0 \<in> reach demo_fresh 3" by (rule reach_step)
  have "DERIV (\<lambda>x. value_with demo_fresh 0 x 3) (data (demo_fresh ! 0)) :> grad (?h' ! 0)"
    using backward_computes_partial_derivatives[OF demo_fresh_wf 1 2 3 demo_fresh_backward] 4
    by blast
  then have "DERIV (\<lambda>x. value_with demo_fresh 0 x 3) 2 :> 4" by (simp add: demo_fresh_def)
  with demo_fresh_wf 1 f g demo_fresh_backward 4 show ?thesis by simp
qed

subsection \<open>The operators build heaps of that shape\<close>

text \<open>
  Every heap the operators build is well formed and consistent, and its gradients are 0
  until a backward pass runs: the hypotheses of the theorem above hold for it.
\<close>

lemma forward_ok_iff: "forward_ok h \<longleftrightarrow> (\<forall>m < length h. forward_ok_at h m)"
  by (auto simp: forward_ok_def list_all_iff)

lemma ok_snoc:
  assumes wf: "wf_heap h" and fw: "forward_ok h" and z: "\<forall>n \<in> {..<length h}. grad (h ! n) = 0"
    and p: "\<forall>c \<in> set (prev v). c < length h" "distinct (prev v)"
      "set (prev v) = set (operands (closure v))"
    and f: "forward_ok_at (h @ [v]) (length h)" and g: "grad v = 0"
  shows "wf_heap (h @ [v]) \<and> forward_ok (h @ [v]) \<and> (\<forall>n \<in> {..<length (h @ [v])}. grad ((h @ [v]) ! n) = 0)"
proof -
  have wf': "wf_heap (h @ [v])" using wf p by (rule wf_heap_snoc)
  have old: "\<And>m. m < length h \<Longrightarrow> forward_ok_at (h @ [v]) m"
  proof -
    fix m assume m: "m < length h"
    have lt: "\<And>c. c \<in> set (operands (closure (h ! m))) \<Longrightarrow> c < length h"
      using wf_operands[OF wf m] m by fastforce
    have "forward_ok_at h m" using fw m by (simp add: forward_ok_iff)
    then show "forward_ok_at (h @ [v]) m"
      using m lt by (cases "closure (h ! m)") (auto simp: forward_ok_at_def nth_append)
  qed
  have "forward_ok (h @ [v])"
    unfolding forward_ok_iff using old f by (auto simp: less_Suc_eq)
  moreover have "\<forall>n \<in> {..<length (h @ [v])}. grad ((h @ [v]) ! n) = 0"
    using z g by (auto simp: nth_append less_Suc_eq)
  ultimately show ?thesis using wf' by blast
qed

lemma ok_init:
  assumes "heap_ok h" "\<forall>c \<in> set cs. c < length h" "set cs = set (operands cl)"
    "forward_ok_at (h @ [\<lparr>data = d, grad = 0, closure = cl, prev = remdups cs\<rparr>]) (length h)"
  shows "heap_ok (snd (Value_init h d cs cl))"
  using assms ok_snoc[of h "\<lparr>data = d, grad = 0, closure = cl, prev = remdups cs\<rparr>"]
  by (simp add: heap_ok_def Value_init_def)

lemma ok_leaf: "heap_ok h \<Longrightarrow> heap_ok (snd (Value_init h x [] NoOp))"
  by (rule ok_init) (simp_all add: forward_ok_at_def)

lemma ok_promote:
  "heap_ok h \<Longrightarrow> valid_arg h y \<Longrightarrow> promote h y = (r, h1) \<Longrightarrow>
     heap_ok h1 \<and> r < length h1 \<and> length h \<le> length h1"
  using ok_leaf[of h]
  by (cases y) (auto simp: promote_def valid_arg_def Value_init_def)

lemma ok_add: "heap_ok h \<Longrightarrow> a < length h \<Longrightarrow> valid_arg h y \<Longrightarrow> heap_ok (snd (Value_add h a y))"
proof -
  assume h: "heap_ok h" "a < length h" "valid_arg h y"
  obtain r h1 where p: "promote h y = (r, h1)" by (cases "promote h y")
  from ok_promote[OF h(1,3) p] h(2) have 1: "heap_ok h1" "r < length h1" "a < length h1" by auto
  have "heap_ok (snd (Value_init h1 (data (h1 ! a) + data (h1 ! r)) [a, r] (AddBw a r)))"
    using 1 by (intro ok_init) (simp_all add: forward_ok_at_def nth_append)
  with p show ?thesis by (simp add: Value_add_def)
qed

lemma ok_mul: "heap_ok h \<Longrightarrow> a < length h \<Longrightarrow> valid_arg h y \<Longrightarrow> heap_ok (snd (Value_mul h a y))"
proof -
  assume h: "heap_ok h" "a < length h" "valid_arg h y"
  obtain r h1 where p: "promote h y = (r, h1)" by (cases "promote h y")
  from ok_promote[OF h(1,3) p] h(2) have 1: "heap_ok h1" "r < length h1" "a < length h1" by auto
  have "heap_ok (snd (Value_init h1 (data (h1 ! a) * data (h1 ! r)) [a, r] (MulBw a r)))"
    using 1 by (intro ok_init) (simp_all add: forward_ok_at_def nth_append)
  with p show ?thesis by (simp add: Value_mul_def)
qed

lemma ok_pow:
  "heap_ok h \<Longrightarrow> a < length h \<Longrightarrow> Value_pow h a y = Inr (RealNode r h') \<Longrightarrow> heap_ok h'"
proof -
  assume h: "heap_ok h" "a < length h" "Value_pow h a y = Inr (RealNode r h')"
  then obtain k z where k: "y = Num k" "pypow (data (h ! a)) k = Inr (PyFloat z)"
    "h' = snd (Value_init h z [a] (PowBw a k))"
    by (cases y) (auto simp: Value_pow_def split: sum.splits pynum.splits prod.splits)
  show ?thesis unfolding k(3)
    using h(1,2) k(2) by (intro ok_init) (simp_all add: forward_ok_at_def nth_append)
qed

lemma ok_tanh: "heap_ok h \<Longrightarrow> a < length h \<Longrightarrow> Value_tanh h a = Inr (r, h') \<Longrightarrow> heap_ok h'"
proof -
  assume h: "heap_ok h" "a < length h" "Value_tanh h a = Inr (r, h')"
  define t where "t = (exp (2 * data (h ! a)) - 1) / (exp (2 * data (h ! a)) + 1)"
  from h(3) have "h' = snd (Value_init h t [a] (TanhBw a t))"
    by (auto simp: Value_tanh_def math_exp_def Let_def t_def split: if_splits)
  then show ?thesis
    using h(1,2) by (auto intro!: ok_init simp: forward_ok_at_def nth_append t_def)
qed

lemma ok_exp: "heap_ok h \<Longrightarrow> a < length h \<Longrightarrow> Value_exp h a = Inr (r, h') \<Longrightarrow> heap_ok h'"
proof -
  assume h: "heap_ok h" "a < length h" "Value_exp h a = Inr (r, h')"
  from h(3) have "h' = snd (Value_init h (exp (data (h ! a))) [a] (ExpBw a))"
    by (auto simp: Value_exp_def math_exp_def Let_def split: if_splits)
  then show ?thesis
    using h(1,2) by (auto intro!: ok_init simp: forward_ok_at_def nth_append)
qed

lemma built_heap_ok: "built h \<Longrightarrow> heap_ok h"
proof (induction rule: built.induct)
  case built_empty
  then show ?case by (simp add: heap_ok_def wf_heap_def forward_ok_def)
qed (auto intro: ok_leaf ok_add ok_mul ok_pow ok_tanh ok_exp)


lemma built_derived:
  assumes "built h" "a < length h" "valid_arg h y"
  shows "built (snd (Value_neg h a))" and "built (snd (Value_sub h a y))"
    and "built (snd (Value_radd h a y))" and "built (snd (Value_rmul h a y))"
    and "Value_truediv h a y = Inr (RealNode r h') \<Longrightarrow> built h'"
proof -
  show n: "built (snd (Value_neg h a))"
    unfolding Value_neg_def using assms(1,2) by (intro built_mul) (simp_all add: valid_arg_def)
  show "built (snd (Value_radd h a y))" unfolding Value_radd_def using assms by (rule built_add)
  show "built (snd (Value_rmul h a y))" unfolding Value_rmul_def using assms by (rule built_mul)
  show "built (snd (Value_sub h a y))"
  proof (cases y)
    case (Num x)
    then show ?thesis
      unfolding Value_sub_def using assms(1,2) by (auto intro!: built_add simp: valid_arg_def)
  next
    case (Ref c)
    obtain k h1 where k: "Value_neg h c = (k, h1)" by (cases "Value_neg h c")
    have c: "c < length h" using assms(3) Ref by (simp add: valid_arg_def)
    have b1: "built h1"
      using built_mul[OF assms(1) c, of "Num (- 1)"] k by (simp add: Value_neg_def valid_arg_def)
    have l: "k < length h1" "a < length h1"
      using k assms(2) by (auto simp: Value_neg_def Value_mul_def promote_def Value_init_def)
    from built_add[OF b1 l(2), of "Ref k"] l(1) Ref k show ?thesis
      by (simp add: Value_sub_def valid_arg_def)
  qed
  show "built h'" if t: "Value_truediv h a y = Inr (RealNode r h')"
  proof (cases y)
    case (Num x)
    with t obtain z where "Value_mul h a (Num z) = (r, h')"
      by (auto simp: Value_truediv_def split: sum.splits pynum.splits prod.splits node_out.splits)
    then have "h' = snd (Value_mul h a (Num z))" by simp
    then show ?thesis using assms(1,2) by (auto intro!: built_mul simp: valid_arg_def)
  next
    case (Ref c)
    with t obtain k h1 where k: "Value_pow h c (Num (- 1)) = Inr (RealNode k h1)"
      and m: "Value_mul h1 a (Ref k) = (r, h')"
      by (auto simp: Value_truediv_def split: sum.splits pynum.splits prod.splits node_out.splits)
    from m have h': "h' = snd (Value_mul h1 a (Ref k))" by simp
    have c: "c < length h" using assms(3) Ref by (simp add: valid_arg_def)
    have b1: "built h1" using assms(1) c k by (rule built_pow)
    have l: "k < length h1" "a < length h1"
      using k assms(2)
      by (auto simp: Value_pow_def Value_init_def split: sum.splits pynum.splits prod.splits)
    show ?thesis unfolding h' using b1 l by (intro built_mul) (simp_all add: valid_arg_def)
  qed
qed

end
